theory Spec2Isabelle
  imports Complex_Main
begin

section \<open>The board and its rules (connect4.py)\<close>

text \<open>
  The board is the numpy array of the source, row by row: \<open>board g ! r ! c\<close> is
  \<open>self.board[r][c]\<close>, with 0 for an empty cell and the player's number (1 or 2) for a
  token. Row 0 is the top row. Players and cell contents are Python integers; rows and
  columns that the source produces with \<open>range\<close> are natural numbers.

  Exceptions of the source are values of \<open>error\<close>: \<open>IndexError\<close> for an access outside
  the array, \<open>AttributeError\<close> for a field of \<open>None\<close>, \<open>ValueError\<close> for \<open>math.log(0)\<close>.
  \<open>InvalidMove\<close> marks a call of \<open>simulate_move\<close> on a column without an empty cell:
  the source states "Assumes col is valid" and indexes the array with \<open>None\<close> there, so
  the model stops at that point instead of following numpy any further.
\<close>

datatype error = IndexError | InvalidMove | AttributeError | ValueError

record game =
  rows :: nat
  cols :: nat
  board :: "int list list"
  current_player :: int

definition THREE_IN_ROW :: int where "THREE_IN_ROW = 100"
definition TWO_IN_ROW :: int where "TWO_IN_ROW = 10"
definition CENTER_BONUS :: int where "CENTER_BONUS = 3"

definition init_game :: "nat \<Rightarrow> nat \<Rightarrow> game" where
  "init_game r c = \<lparr>rows = r, cols = c, board = replicate r (replicate c 0), current_player = 1\<rparr>"

text \<open>
  The shape the constructor establishes and every operation keeps: \<open>rows\<close> rows of \<open>cols\<close>
  cells, and at least one row. On such a game every read of \<open>get_game_state\<close>,
  \<open>evaluate_position\<close>, \<open>get_valid_moves\<close> and \<open>get_next_open_row\<close> (for a column below
  \<open>cols\<close>) is inside the array, because the loop bounds and guards of the source keep it
  there; these functions are therefore total functions over \<open>!\<close>, and the theorems about
  them assume \<open>wf_game\<close>.
\<close>

definition wf_game :: "game \<Rightarrow> bool" where
  "wf_game g \<longleftrightarrow> 0 < rows g \<and> length (board g) = rows g \<and> (\<forall>r \<in> set (board g). length r = cols g)"

definition is_valid_location :: "game \<Rightarrow> nat \<Rightarrow> bool" where
  "is_valid_location g col \<longleftrightarrow> board g ! 0 ! col = 0"

definition get_next_open_row :: "game \<Rightarrow> nat \<Rightarrow> nat option" where
  "get_next_open_row g col = find (\<lambda>r. board g ! r ! col = 0) (rev [0..<rows g])"

definition get_valid_moves :: "game \<Rightarrow> nat list" where
  "get_valid_moves g = filter (is_valid_location g) [0..<cols g]"

definition copy_game :: "game \<Rightarrow> game" where
  "copy_game g = \<lparr>rows = rows g, cols = cols g, board = board g, current_player = current_player g\<rparr>"

definition simulate_move :: "game \<Rightarrow> nat \<Rightarrow> int \<Rightarrow> error + (game \<times> (nat \<times> nat))" where
  "simulate_move g col player =
     (case get_next_open_row g col of
        None \<Rightarrow> Inl InvalidMove
      | Some row \<Rightarrow>
          if row < length (board g) \<and> col < length (board g ! row)
          then Inr (g\<lparr>board := (board g)[row := (board g ! row)[col := player]]\<rparr>, (row, col))
          else Inl IndexError)"

definition undo_move :: "game \<Rightarrow> nat \<times> nat \<Rightarrow> error + game" where
  "undo_move g undo_info =
     (case undo_info of (row, col) \<Rightarrow>
        if row < length (board g) \<and> col < length (board g ! row)
        then Inr (g\<lparr>board := (board g)[row := (board g ! row)[col := 0]]\<rparr>)
        else Inl IndexError)"

subsection \<open>Win and draw detection\<close>

text \<open>
  \<open>four f player\<close> is \<open>all(f(i) == player for i in range(4))\<close>. \<open>check_cell\<close> is the body
  of the double loop of \<open>get_game_state\<close> at one cell: the player that the loop returns
  there, if any. The guards \<open>col <= self.cols - 4\<close> and \<open>row <= self.rows - 4\<close> are
  written with the 4 on the other side, since the natural numbers have no negative
  difference.
\<close>

definition four :: "(nat \<Rightarrow> int) \<Rightarrow> int \<Rightarrow> bool" where
  "four f player \<longleftrightarrow> list_all (\<lambda>i. f i = player) [0..<4]"

definition check_cell :: "game \<Rightarrow> nat \<Rightarrow> nat \<Rightarrow> int option" where
  "check_cell g row col =
     (let b = board g in
      if b ! row ! col \<noteq> 0 then
        (let player = b ! row ! col in
         if col + 4 \<le> cols g \<and> four (\<lambda>i. b ! row ! (col + i)) player then Some player
         else if row + 4 \<le> rows g \<and> four (\<lambda>i. b ! (row + i) ! col) player then Some player
         else if row + 4 \<le> rows g \<and> col + 4 \<le> cols g
                 \<and> four (\<lambda>i. b ! (row + i) ! (col + i)) player then Some player
         else if row + 4 \<le> rows g \<and> 3 \<le> col
                 \<and> four (\<lambda>i. b ! (row + i) ! (col - i)) player then Some player
         else None)
      else None)"

fun first_result :: "('a \<Rightarrow> 'b option) \<Rightarrow> 'a list \<Rightarrow> 'b option" where
  "first_result f [] = None"
| "first_result f (x # xs) = (case f x of Some y \<Rightarrow> Some y | None \<Rightarrow> first_result f xs)"

definition get_game_state :: "game \<Rightarrow> int" where
  "get_game_state g =
     (case first_result (\<lambda>(row, col). check_cell g row col)
             (List.product [0..<rows g] [0..<cols g]) of
        Some player \<Rightarrow> player
      | None \<Rightarrow> if list_all (\<lambda>col. board g ! 0 ! col \<noteq> 0) [0..<cols g] then 3 else 0)"

subsection \<open>The heuristic\<close>

definition evaluate_window :: "int list \<Rightarrow> int \<Rightarrow> int" where
  "evaluate_window window player =
     (let opponent = 3 - player;
          player_count = count_list window player;
          opponent_count = count_list window opponent;
          empty_count = count_list window 0;
          score = 0;
          score = (if player_count = 3 \<and> empty_count = 1 then score + THREE_IN_ROW
                   else if player_count = 2 \<and> empty_count = 2 then score + TWO_IN_ROW
                   else score);
          score = (if opponent_count = 3 \<and> empty_count = 1 then score - THREE_IN_ROW
                   else if opponent_count = 2 \<and> empty_count = 2 then score - TWO_IN_ROW
                   else score)
      in score)"

text \<open>
  The four window loops of \<open>evaluate_position\<close>, each with the loop bounds of the source:
  the horizontal loop runs \<open>row\<close> over \<open>range(self.rows-3)\<close> and \<open>col\<close> over
  \<open>range(self.cols-3)\<close>.
\<close>

definition horizontal_windows :: "game \<Rightarrow> int list list" where
  "horizontal_windows g =
     map (\<lambda>(row, col). map (\<lambda>i. board g ! row ! (col + i)) [0..<4])
       (List.product [0..<rows g - 3] [0..<cols g - 3])"

definition vertical_windows :: "game \<Rightarrow> int list list" where
  "vertical_windows g =
     map (\<lambda>(col, row). map (\<lambda>i. board g ! (row + i) ! col) [0..<4])
       (List.product [0..<cols g] [0..<rows g - 3])"

definition positive_diagonal_windows :: "game \<Rightarrow> int list list" where
  "positive_diagonal_windows g =
     map (\<lambda>(row, col). map (\<lambda>i. board g ! (row + i) ! (col + i)) [0..<4])
       (List.product [0..<rows g - 3] [0..<cols g - 3])"

definition negative_diagonal_windows :: "game \<Rightarrow> int list list" where
  "negative_diagonal_windows g =
     map (\<lambda>(row, col). map (\<lambda>i. board g ! (row - i) ! (col + i)) [0..<4])
       (List.product [3..<rows g] [0..<cols g - 3])"

definition window_score :: "game \<Rightarrow> int \<Rightarrow> int" where
  "window_score g player =
     sum_list (map (\<lambda>window. evaluate_window window player)
       (horizontal_windows g @ vertical_windows g
          @ positive_diagonal_windows g @ negative_diagonal_windows g))"

text \<open>The loop \<open>bonus += max(0, CENTER_BONUS - distance_from_center)\<close> over all cells.\<close>

fun bonus_loop :: "game \<Rightarrow> int \<Rightarrow> (nat \<times> nat) list \<Rightarrow> int \<Rightarrow> int" where
  "bonus_loop g player [] bonus = bonus"
| "bonus_loop g player ((row, col) # cells) bonus =
     (if board g ! row ! col = player
      then (let center_col = cols g div 2;
                distance_from_center = \<bar>int col - int center_col\<bar>
            in bonus_loop g player cells (bonus + max 0 (CENTER_BONUS - distance_from_center)))
      else bonus_loop g player cells bonus)"

definition center_bonus :: "game \<Rightarrow> int \<Rightarrow> int" where
  "center_bonus g player = bonus_loop g player (List.product [0..<rows g] [0..<cols g]) 0"

definition evaluate_position :: "game \<Rightarrow> int \<Rightarrow> int" where
  "evaluate_position g player =
     (let game_state = get_game_state g in
      if game_state = player then 1000
      else if game_state = 3 - player then - 1000
      else if game_state = 3 then 0
      else window_score g player + center_bonus g player)"

subsection \<open>The check after a move\<close>

text \<open>
  \<open>is_winning_move\<close> computes its column indices with \<open>c - i\<close>, which can be negative,
  so its reads follow numpy's indexing: an index \<open>i\<close> with \<open>-n \<le> i < 0\<close> reads position
  \<open>n + i\<close>, an index outside \<open>[-n, n)\<close> raises \<open>IndexError\<close>. \<open>py_range a b\<close> is
  \<open>range(a, b)\<close> and \<open>py_range_down a b\<close> is \<open>range(a, b, -1)\<close>. \<open>all_equal\<close> is the
  \<open>all(...)\<close> of the source over the reads in order: it stops at the first cell that
  differs. \<open>any_window\<close> is the \<open>for\<close> loop that returns \<open>True\<close> at the first window
  that is full.
\<close>

definition norm_index :: "nat \<Rightarrow> int \<Rightarrow> nat option" where
  "norm_index n i =
     (if 0 \<le> i \<and> i < int n then Some (nat i)
      else if - int n \<le> i \<and> i < 0 then Some (nat (int n + i))
      else None)"

definition cell :: "game \<Rightarrow> int \<Rightarrow> int \<Rightarrow> error + int" where
  "cell g r c =
     (case norm_index (length (board g)) r of
        None \<Rightarrow> Inl IndexError
      | Some r' \<Rightarrow>
          (case norm_index (length (board g ! r')) c of
             None \<Rightarrow> Inl IndexError
           | Some c' \<Rightarrow> Inr (board g ! r' ! c')))"

definition py_range :: "int \<Rightarrow> int \<Rightarrow> int list" where
  "py_range a b = [a..b - 1]"

definition py_range_down :: "int \<Rightarrow> int \<Rightarrow> int list" where
  "py_range_down a b = rev [b + 1..a]"

fun all_equal :: "(error + int) list \<Rightarrow> int \<Rightarrow> error + bool" where
  "all_equal [] p = Inr True"
| "all_equal (x # xs) p =
     (case x of Inl e \<Rightarrow> Inl e | Inr v \<Rightarrow> if v = p then all_equal xs p else Inr False)"

fun any_window :: "(error + bool) list \<Rightarrow> error + bool" where
  "any_window [] = Inr False"
| "any_window (x # xs) =
     (case x of Inl e \<Rightarrow> Inl e | Inr hit \<Rightarrow> if hit then Inr True else any_window xs)"

definition is_winning_move :: "game \<Rightarrow> int \<Rightarrow> int \<Rightarrow> error + bool" where
  "is_winning_move g row col =
     (let p = current_player g;
          rs = py_range (max 0 (row - 3)) (min (int (rows g) - 3) (row + 1));
          cs = py_range (max 0 (col - 3)) (min (int (cols g) - 3) (col + 1));
          ds = py_range_down (min (int (cols g) - 1) (col + 3)) (max (- 1) (col - 4))
      in case any_window (map (\<lambda>c. all_equal (map (\<lambda>i. cell g row (c + i)) [0..3]) p) cs) of
           Inl e \<Rightarrow> Inl e
         | Inr True \<Rightarrow> Inr True
         | Inr False \<Rightarrow>
      (case any_window (map (\<lambda>r. all_equal (map (\<lambda>i. cell g (r + i) col) [0..3]) p) rs) of
           Inl e \<Rightarrow> Inl e
         | Inr True \<Rightarrow> Inr True
         | Inr False \<Rightarrow>
      (case any_window (map (\<lambda>(r, c). all_equal (map (\<lambda>i. cell g (r + i) (c + i)) [0..3]) p)
                          (zip rs cs)) of
           Inl e \<Rightarrow> Inl e
         | Inr True \<Rightarrow> Inr True
         | Inr False \<Rightarrow>
      (case any_window (map (\<lambda>(r, c). all_equal (map (\<lambda>i. cell g (r + i) (c - i)) [0..3]) p)
                          (zip rs ds)) of
           Inl e \<Rightarrow> Inl e
         | Inr True \<Rightarrow> Inr True
         | Inr False \<Rightarrow> Inr False))))"

subsection \<open>What the specification says, for comparison\<close>

text \<open>
  The two definitions of this subsection follow the words of the specification, not the
  source. \<open>spec_window_score\<close> sums \<open>evaluate_window\<close> over every contiguous window of
  four cells: the horizontal ones in every row. \<open>spec_window_through\<close> says that some
  window of four cells in one of the four directions lies on the board, contains the
  cell \<open>(row, col)\<close> (as its \<open>k\<close>-th cell) and holds the current mover's token everywhere.
\<close>

definition spec_horizontal_windows :: "game \<Rightarrow> int list list" where
  "spec_horizontal_windows g =
     map (\<lambda>(row, col). map (\<lambda>i. board g ! row ! (col + i)) [0..<4])
       (List.product [0..<rows g] [0..<cols g - 3])"

definition spec_window_score :: "game \<Rightarrow> int \<Rightarrow> int" where
  "spec_window_score g player =
     sum_list (map (\<lambda>window. evaluate_window window player)
       (spec_horizontal_windows g @ vertical_windows g
          @ positive_diagonal_windows g @ negative_diagonal_windows g))"

definition spec_window_through :: "game \<Rightarrow> nat \<Rightarrow> nat \<Rightarrow> bool" where
  "spec_window_through g row col \<longleftrightarrow>
     list_ex (\<lambda>(dr, dc).
       list_ex (\<lambda>k.
         list_all (\<lambda>i.
           (let r = int row + (i - k) * dr; c = int col + (i - k) * dc
            in 0 \<le> r \<and> r < int (rows g) \<and> 0 \<le> c \<and> c < int (cols g)
               \<and> board g ! nat r ! nat c = current_player g)) [0..3]) [0..3])
       [(0, 1), (1, 0), (1, 1), (1, - 1)]"

subsection \<open>Positions used below\<close>

text \<open>
  Four positions of the standard 6 x 7 board, each reachable by alternating legal moves
  from the empty board. \<open>low_pair_position\<close>: player 1 in columns 0 and 1, player 2 in
  column 6. \<open>diagonal_position\<close>: player 1 has just completed the diagonal
  (2,0), (3,1), (4,2), (5,3) with the token at (3,1). \<open>heavy_position\<close>: nineteen
  tokens (columns 3, 2, 2, 6, 2, 0, 2, 3, 3, 4, 4, 0, 4, 6, 4, 0, 0, 0, 3 in turn), no four
  in a row. \<open>drawn_position\<close>: a full board without four in a row.
\<close>

definition low_pair_position :: game where
  "low_pair_position = \<lparr>rows = 6, cols = 7, board =
     [[0, 0, 0, 0, 0, 0, 0],
      [0, 0, 0, 0, 0, 0, 0],
      [0, 0, 0, 0, 0, 0, 0],
      [0, 0, 0, 0, 0, 0, 0],
      [0, 0, 0, 0, 0, 0, 0],
      [1, 1, 0, 0, 0, 0, 2]], current_player = 2\<rparr>"

definition diagonal_position :: game where
  "diagonal_position = \<lparr>rows = 6, cols = 7, board =
     [[0, 0, 0, 0, 0, 0, 0],
      [0, 0, 0, 0, 0, 0, 0],
      [1, 0, 0, 0, 0, 0, 0],
      [2, 1, 0, 0, 0, 0, 0],
      [1, 2, 1, 0, 0, 0, 0],
      [2, 2, 2, 1, 0, 0, 1]], current_player = 1\<rparr>"

definition heavy_position :: game where
  "heavy_position = \<lparr>rows = 6, cols = 7, board =
     [[0, 0, 0, 0, 0, 0, 0],
      [2, 0, 0, 0, 0, 0, 0],
      [1, 0, 1, 1, 1, 0, 0],
      [2, 0, 1, 1, 1, 0, 0],
      [2, 0, 1, 2, 1, 0, 2],
      [2, 0, 2, 1, 2, 0, 2]], current_player = 2\<rparr>"

definition drawn_position :: game where
  "drawn_position = \<lparr>rows = 6, cols = 7, board =
     [[1, 1, 2, 2, 1, 1, 2],
      [2, 2, 1, 1, 2, 2, 1],
      [1, 1, 2, 2, 1, 1, 2],
      [2, 2, 1, 1, 2, 2, 1],
      [1, 1, 2, 2, 1, 1, 2],
      [2, 2, 1, 1, 2, 2, 1]], current_player = 1\<rparr>"

definition window_count :: "game \<Rightarrow> nat" where
  "window_count g = (rows g - 3) * (cols g - 3) + cols g * (rows g - 3)
                     + (rows g - 3) * (cols g - 3) + (rows g - 3) * (cols g - 3)"

definition all_window_count :: "game \<Rightarrow> nat" where
  "all_window_count g = rows g * (cols g - 3) + cols g * (rows g - 3)
                     + (rows g - 3) * (cols g - 3) + (rows g - 3) * (cols g - 3)"

definition cell_bonus :: "game \<Rightarrow> nat \<Rightarrow> int" where
  "cell_bonus g col = max 0 (3 - \<bar>int col - int (cols g div 2)\<bar>)"

section \<open>Depth-limited search (minimax.py)\<close>

text \<open>
  The search starts from \<open>best_score = -inf\<close> or \<open>inf\<close> and compares it with integer
  scores, so scores are integers extended by the two infinities, ordered as Python
  orders a float infinity against integers.
\<close>

datatype 'a ext = MInf | Fin 'a | PInf

instantiation ext :: (linorder) linorder
begin

fun less_eq_ext :: "'a ext \<Rightarrow> 'a ext \<Rightarrow> bool" where
  "less_eq_ext MInf y = True"
| "less_eq_ext (Fin a) MInf = False"
| "less_eq_ext (Fin a) (Fin b) = (a \<le> b)"
| "less_eq_ext (Fin a) PInf = True"
| "less_eq_ext PInf MInf = False"
| "less_eq_ext PInf (Fin b) = False"
| "less_eq_ext PInf PInf = True"

definition less_ext :: "'a ext \<Rightarrow> 'a ext \<Rightarrow> bool" where
  "less_ext x y \<longleftrightarrow> x \<le> y \<and> \<not> y \<le> x"

instance
proof
  fix x y z :: "'a ext"
  show "(x < y) = (x \<le> y \<and> \<not> y \<le> x)" by (simp add: less_ext_def)
  show "x \<le> x" by (cases x) simp_all
  show "x \<le> y \<Longrightarrow> y \<le> z \<Longrightarrow> x \<le> z" by (cases x; cases y; cases z) simp_all
  show "x \<le> y \<Longrightarrow> y \<le> x \<Longrightarrow> x = y" by (cases x; cases y) simp_all
  show "x \<le> y \<or> y \<le> x" by (cases x; cases y) auto
qed

end

type_synonym score = "int ext"

text \<open>
  The search works on the one game object it is given: \<open>simulate_move\<close> places a token,
  the recursive call runs on the changed board, \<open>undo_move\<close> takes the token back. The
  model passes the game through every call and returns it with the result, so a result is
  \<open>(score, best column, game afterwards)\<close>. \<open>try_move\<close> is the three lines
  \<open>undo_info = game.simulate_move(col, mover); score, _ = search(game, ...);
  game.undo_move(undo_info)\<close> that all four loops share.

  The depth is a natural number: it counts the plies left to look ahead, the
  constructor's default is 6, and the recursion counts down to the test \<open>depth == 0\<close>.
  Negative depths are outside the model.
\<close>

definition try_move ::
  "game \<Rightarrow> nat \<Rightarrow> int \<Rightarrow> (game \<Rightarrow> error + (score \<times> nat option \<times> game)) \<Rightarrow> error + (score \<times> game)" where
  "try_move g col mover search =
     (case simulate_move g col mover of
        Inl e \<Rightarrow> Inl e
      | Inr (g1, undo_info) \<Rightarrow>
          (case search g1 of
             Inl e \<Rightarrow> Inl e
           | Inr (score, _, g2) \<Rightarrow>
               (case undo_move g2 undo_info of
                  Inl e \<Rightarrow> Inl e
                | Inr g3 \<Rightarrow> Inr (score, g3))))"

text \<open>
  The loops \<open>for col in valid_moves\<close> of \<open>minimax_basic\<close>: \<open>child g col\<close> is the body up
  to the score, the remaining arguments are the loop variables.
\<close>

fun max_loop ::
  "(game \<Rightarrow> nat \<Rightarrow> error + (score \<times> game)) \<Rightarrow> nat list \<Rightarrow> game \<Rightarrow> score \<Rightarrow> nat
     \<Rightarrow> error + (score \<times> nat \<times> game)" where
  "max_loop child [] g best_score best_col = Inr (best_score, best_col, g)"
| "max_loop child (col # rest) g best_score best_col =
     (case child g col of
        Inl e \<Rightarrow> Inl e
      | Inr (score, g') \<Rightarrow>
          if score > best_score then max_loop child rest g' score col
          else max_loop child rest g' best_score best_col)"

fun min_loop ::
  "(game \<Rightarrow> nat \<Rightarrow> error + (score \<times> game)) \<Rightarrow> nat list \<Rightarrow> game \<Rightarrow> score \<Rightarrow> nat
     \<Rightarrow> error + (score \<times> nat \<times> game)" where
  "min_loop child [] g best_score best_col = Inr (best_score, best_col, g)"
| "min_loop child (col # rest) g best_score best_col =
     (case child g col of
        Inl e \<Rightarrow> Inl e
      | Inr (score, g') \<Rightarrow>
          if score < best_score then min_loop child rest g' score col
          else min_loop child rest g' best_score best_col)"

fun minimax_basic :: "game \<Rightarrow> nat \<Rightarrow> bool \<Rightarrow> int \<Rightarrow> error + (score \<times> nat option \<times> game)" where
  "minimax_basic g depth maximizing_player player =
     (if depth = 0 \<or> get_game_state g \<noteq> 0 then Inr (Fin (evaluate_position g player), None, g)
      else
        (let valid_moves = get_valid_moves g in
         if valid_moves = [] then Inr (Fin (evaluate_position g player), None, g)
         else if maximizing_player then
           (case max_loop
                   (\<lambda>g' col. try_move g' col player
                      (\<lambda>g1. minimax_basic g1 (depth - 1) False player))
                   valid_moves g MInf (valid_moves ! 0) of
              Inl e \<Rightarrow> Inl e
            | Inr (best_score, best_col, g') \<Rightarrow> Inr (best_score, Some best_col, g'))
         else
           (case min_loop
                   (\<lambda>g' col. try_move g' col (3 - player)
                      (\<lambda>g1. minimax_basic g1 (depth - 1) True player))
                   valid_moves g PInf (valid_moves ! 0) of
              Inl e \<Rightarrow> Inl e
            | Inr (best_score, best_col, g') \<Rightarrow> Inr (best_score, Some best_col, g'))))"

text \<open>
  The loops of \<open>minimax_ab\<close>, with \<open>alpha = max(alpha, best_score)\<close> (respectively
  \<open>beta = min(beta, best_score)\<close>) and the \<open>break\<close> on \<open>beta <= alpha\<close>.
\<close>

fun ab_max_loop ::
  "(game \<Rightarrow> nat \<Rightarrow> score \<Rightarrow> score \<Rightarrow> error + (score \<times> game)) \<Rightarrow> nat list \<Rightarrow> game
     \<Rightarrow> score \<Rightarrow> score \<Rightarrow> score \<Rightarrow> nat \<Rightarrow> error + (score \<times> nat \<times> game)" where
  "ab_max_loop child [] g alpha beta best_score best_col = Inr (best_score, best_col, g)"
| "ab_max_loop child (col # rest) g alpha beta best_score best_col =
     (case child g col alpha beta of
        Inl e \<Rightarrow> Inl e
      | Inr (score, g') \<Rightarrow>
          (let (best_score', best_col') =
                 (if score > best_score then (score, col) else (best_score, best_col));
               alpha' = max alpha best_score'
           in if beta \<le> alpha' then Inr (best_score', best_col', g')
              else ab_max_loop child rest g' alpha' beta best_score' best_col'))"

fun ab_min_loop ::
  "(game \<Rightarrow> nat \<Rightarrow> score \<Rightarrow> score \<Rightarrow> error + (score \<times> game)) \<Rightarrow> nat list \<Rightarrow> game
     \<Rightarrow> score \<Rightarrow> score \<Rightarrow> score \<Rightarrow> nat \<Rightarrow> error + (score \<times> nat \<times> game)" where
  "ab_min_loop child [] g alpha beta best_score best_col = Inr (best_score, best_col, g)"
| "ab_min_loop child (col # rest) g alpha beta best_score best_col =
     (case child g col alpha beta of
        Inl e \<Rightarrow> Inl e
      | Inr (score, g') \<Rightarrow>
          (let (best_score', best_col') =
                 (if score < best_score then (score, col) else (best_score, best_col));
               beta' = min beta best_score'
           in if beta' \<le> alpha then Inr (best_score', best_col', g')
              else ab_min_loop child rest g' alpha beta' best_score' best_col'))"

fun minimax_ab ::
  "game \<Rightarrow> nat \<Rightarrow> score \<Rightarrow> score \<Rightarrow> bool \<Rightarrow> int \<Rightarrow> error + (score \<times> nat option \<times> game)" where
  "minimax_ab g depth alpha beta maximizing_player player =
     (if depth = 0 \<or> get_game_state g \<noteq> 0 then Inr (Fin (evaluate_position g player), None, g)
      else
        (let valid_moves = get_valid_moves g in
         if valid_moves = [] then Inr (Fin (evaluate_position g player), None, g)
         else if maximizing_player then
           (case ab_max_loop
                   (\<lambda>g' col a b. try_move g' col player
                      (\<lambda>g1. minimax_ab g1 (depth - 1) a b False player))
                   valid_moves g alpha beta MInf (valid_moves ! 0) of
              Inl e \<Rightarrow> Inl e
            | Inr (best_score, best_col, g') \<Rightarrow> Inr (best_score, Some best_col, g'))
         else
           (case ab_min_loop
                   (\<lambda>g' col a b. try_move g' col (3 - player)
                      (\<lambda>g1. minimax_ab g1 (depth - 1) a b True player))
                   valid_moves g alpha beta PInf (valid_moves ! 0) of
              Inl e \<Rightarrow> Inl e
            | Inr (best_score, best_col, g') \<Rightarrow> Inr (best_score, Some best_col, g'))))"

definition get_best_move :: "nat \<Rightarrow> bool \<Rightarrow> game \<Rightarrow> int \<Rightarrow> error + (nat option \<times> game)" where
  "get_best_move depth use_alpha_beta g player =
     (if use_alpha_beta
      then (case minimax_ab g depth MInf PInf True player of
              Inl e \<Rightarrow> Inl e | Inr (_, best_col, g') \<Rightarrow> Inr (best_col, g'))
      else (case minimax_basic g depth True player of
              Inl e \<Rightarrow> Inl e | Inr (_, best_col, g') \<Rightarrow> Inr (best_col, g')))"

declare minimax_basic.simps [simp del] minimax_ab.simps [simp del]

subsection \<open>What a layer examines\<close>

text \<open>
  For the statements about tie-breaking: the list of \<open>(column, score)\<close> pairs that a
  loop obtains, in the order in which it obtains them. The functions follow the loops
  step by step, with the same \<open>child\<close>, the same threading of the game and of
  \<open>alpha\<close>, \<open>beta\<close> and \<open>best_score\<close>, and the same \<open>break\<close>. \<open>basic_examined\<close> and
  \<open>ab_examined\<close> are these lists for the loop that a layer of \<open>minimax_basic\<close> or
  \<open>minimax_ab\<close> runs. \<open>first_greatest ex s c\<close> says that \<open>(c, s)\<close> occurs in \<open>ex\<close>,
  every earlier score is strictly below \<open>s\<close> and no later score is above \<open>s\<close>;
  \<open>first_least\<close> is its mirror image.
\<close>

fun loop_examined ::
  "(game \<Rightarrow> nat \<Rightarrow> error + (score \<times> game)) \<Rightarrow> nat list \<Rightarrow> game \<Rightarrow> (nat \<times> score) list" where
  "loop_examined child [] g = []"
| "loop_examined child (col # rest) g =
     (case child g col of
        Inl e \<Rightarrow> []
      | Inr (score, g') \<Rightarrow> (col, score) # loop_examined child rest g')"

fun ab_max_loop_examined ::
  "(game \<Rightarrow> nat \<Rightarrow> score \<Rightarrow> score \<Rightarrow> error + (score \<times> game)) \<Rightarrow> nat list \<Rightarrow> game
     \<Rightarrow> score \<Rightarrow> score \<Rightarrow> score \<Rightarrow> (nat \<times> score) list" where
  "ab_max_loop_examined child [] g alpha beta best_score = []"
| "ab_max_loop_examined child (col # rest) g alpha beta best_score =
     (case child g col alpha beta of
        Inl e \<Rightarrow> []
      | Inr (score, g') \<Rightarrow>
          (let best_score' = (if score > best_score then score else best_score);
               alpha' = max alpha best_score'
           in (col, score) #
                (if beta \<le> alpha' then []
                 else ab_max_loop_examined child rest g' alpha' beta best_score')))"

fun ab_min_loop_examined ::
  "(game \<Rightarrow> nat \<Rightarrow> score \<Rightarrow> score \<Rightarrow> error + (score \<times> game)) \<Rightarrow> nat list \<Rightarrow> game
     \<Rightarrow> score \<Rightarrow> score \<Rightarrow> score \<Rightarrow> (nat \<times> score) list" where
  "ab_min_loop_examined child [] g alpha beta best_score = []"
| "ab_min_loop_examined child (col # rest) g alpha beta best_score =
     (case child g col alpha beta of
        Inl e \<Rightarrow> []
      | Inr (score, g') \<Rightarrow>
          (let best_score' = (if score < best_score then score else best_score);
               beta' = min beta best_score'
           in (col, score) #
                (if beta' \<le> alpha then []
                 else ab_min_loop_examined child rest g' alpha beta' best_score')))"

definition first_greatest :: "(nat \<times> score) list \<Rightarrow> score \<Rightarrow> nat \<Rightarrow> bool" where
  "first_greatest ex best_score best_col \<longleftrightarrow>
     (\<exists>before after. ex = before @ (best_col, best_score) # after
        \<and> (\<forall>x \<in> set before. snd x < best_score) \<and> (\<forall>x \<in> set after. snd x \<le> best_score))"

definition first_least :: "(nat \<times> score) list \<Rightarrow> score \<Rightarrow> nat \<Rightarrow> bool" where
  "first_least ex best_score best_col \<longleftrightarrow>
     (\<exists>before after. ex = before @ (best_col, best_score) # after
        \<and> (\<forall>x \<in> set before. best_score < snd x) \<and> (\<forall>x \<in> set after. best_score \<le> snd x))"

definition basic_examined :: "game \<Rightarrow> nat \<Rightarrow> bool \<Rightarrow> int \<Rightarrow> (nat \<times> score) list" where
  "basic_examined g depth maximizing_player player =
     loop_examined
       (\<lambda>g' col. try_move g' col (if maximizing_player then player else 3 - player)
          (\<lambda>g1. minimax_basic g1 (depth - 1) (\<not> maximizing_player) player))
       (get_valid_moves g) g"

definition ab_examined ::
  "game \<Rightarrow> nat \<Rightarrow> score \<Rightarrow> score \<Rightarrow> bool \<Rightarrow> int \<Rightarrow> (nat \<times> score) list" where
  "ab_examined g depth alpha beta maximizing_player player =
     (if maximizing_player
      then ab_max_loop_examined
             (\<lambda>g' col a b. try_move g' col player
                (\<lambda>g1. minimax_ab g1 (depth - 1) a b False player))
             (get_valid_moves g) g alpha beta MInf
      else ab_min_loop_examined
             (\<lambda>g' col a b. try_move g' col (3 - player)
                (\<lambda>g1. minimax_ab g1 (depth - 1) a b True player))
             (get_valid_moves g) g alpha beta PInf)"

subsection \<open>Auxiliary notions for the comparison of the two searches\<close>

text \<open>
  \<open>fail_soft_ok alpha beta v r\<close> relates the value \<open>v\<close> of the plain search to the value
  \<open>r\<close> that the pruned search returns for the window \<open>(alpha, beta)\<close>: at or below
  \<open>alpha\<close> it is an upper bound of \<open>v\<close>, at or above \<open>beta\<close> a lower bound, in between
  exact. \<open>after_move g col p\<close> is the game that \<open>simulate_move\<close> leaves.
\<close>

definition fail_soft_ok :: "'a::linorder \<Rightarrow> 'a \<Rightarrow> 'a \<Rightarrow> 'a \<Rightarrow> bool" where
  "fail_soft_ok a b v r \<longleftrightarrow> (r \<le> a \<longrightarrow> v \<le> r) \<and> (a < r \<and> r < b \<longrightarrow> r = v) \<and> (b \<le> r \<longrightarrow> r \<le> v)"


definition after_move :: "game \<Rightarrow> nat \<Rightarrow> int \<Rightarrow> game" where
  "after_move g col p = (case simulate_move g col p of Inr (g1, _) \<Rightarrow> g1 | Inl _ \<Rightarrow> g)"

section \<open>Monte Carlo tree search (mcts.py)\<close>

text \<open>
  The search tree is a store of nodes: a \<open>Node\<close> object is an entry of the list, its
  address is its index, a new node is appended, and \<open>parent\<close> and \<open>children\<close> hold
  addresses, as the Python fields hold references. A method that changes a node returns
  the changed store. \<open>wins\<close> is a rational number (the source adds 1 and 0.5).
\<close>

record node =
  game_state :: game
  move :: "nat option"
  parent :: "nat option"
  player_who_moved :: "int option"
  visits :: nat
  wins :: rat
  children :: "nat list"
  untried_moves :: "nat list"

type_synonym tree = "node list"

definition Node :: "game \<Rightarrow> nat option \<Rightarrow> nat option \<Rightarrow> int option \<Rightarrow> node" where
  "Node g mv par pwm =
     \<lparr>game_state = copy_game g, move = mv, parent = par, player_who_moved = pwm,
      visits = 0, wins = 0, children = [],
      untried_moves = get_valid_moves (copy_game g)\<rparr>"

definition get_next_player :: "node \<Rightarrow> int" where
  "get_next_player n = (case player_who_moved n of None \<Rightarrow> 1 | Some q \<Rightarrow> 3 - q)"

definition is_fully_expanded :: "node \<Rightarrow> bool" where
  "is_fully_expanded n \<longleftrightarrow> length (untried_moves n) = 0"

definition is_terminal :: "node \<Rightarrow> bool" where
  "is_terminal n \<longleftrightarrow> get_game_state (game_state n) \<noteq> 0"

text \<open>
  \<open>ucb1_score\<close> computes \<open>(wins/visits) + C * sqrt(log(parent.visits) / visits)\<close> in
  floating point. Its value is a finite float, that is a rational number, and the model
  takes the function from \<open>(wins, visits, parent.visits)\<close> to that number as the
  parameter \<open>formula\<close>: every statement below holds for every such function. What the
  source does around the formula is written out: the result \<open>inf\<close> for an unvisited node,
  the \<open>AttributeError\<close> when \<open>parent\<close> is \<open>None\<close> and the \<open>ValueError\<close> of
  \<open>math.log(0)\<close>.
\<close>

definition ucb1_score :: "(rat \<Rightarrow> nat \<Rightarrow> nat \<Rightarrow> rat) \<Rightarrow> tree \<Rightarrow> node \<Rightarrow> error + rat ext" where
  "ucb1_score formula t n =
     (if visits n = 0 then Inr PInf
      else (case parent n of
              None \<Rightarrow> Inl AttributeError
            | Some q \<Rightarrow>
                if visits (t ! q) = 0 then Inl ValueError
                else Inr (Fin (formula (wins n) (visits n) (visits (t ! q))))))"

text \<open>
  Random choices are drawn from a sequence \<open>rnd\<close> of natural numbers with a position
  \<open>k\<close> that every draw advances: \<open>random.choice(xs)\<close> is the element at index
  \<open>rnd k mod len(xs)\<close>. Every statement below holds for every sequence, so for every
  outcome of the random choices. The source calls \<open>random.choice\<close> on non-empty lists
  only. \<open>collect\<close> evaluates the scores of the children in order and stops at the first
  exception.
\<close>

definition random_choice :: "(nat \<Rightarrow> nat) \<Rightarrow> nat \<Rightarrow> 'a list \<Rightarrow> 'a" where
  "random_choice rnd k xs = xs ! (rnd k mod length xs)"

fun collect :: "(error + 'a) list \<Rightarrow> error + 'a list" where
  "collect [] = Inr []"
| "collect (x # xs) =
     (case x of
        Inl e \<Rightarrow> Inl e
      | Inr v \<Rightarrow> (case collect xs of Inl e \<Rightarrow> Inl e | Inr vs \<Rightarrow> Inr (v # vs)))"

definition select_best_child ::
  "(rat \<Rightarrow> nat \<Rightarrow> nat \<Rightarrow> rat) \<Rightarrow> (nat \<Rightarrow> nat) \<Rightarrow> tree \<Rightarrow> nat \<Rightarrow> nat \<Rightarrow> error + (nat option \<times> nat)" where
  "select_best_child formula rnd t i k =
     (if children (t ! i) = [] then Inr (None, k)
      else (case collect (map (\<lambda>c. ucb1_score formula t (t ! c)) (children (t ! i))) of
              Inl e \<Rightarrow> Inl e
            | Inr scores \<Rightarrow>
                (let best_score = fold max (tl scores) (hd scores);
                     best_children =
                       map fst (filter (\<lambda>(c, s). s = best_score) (zip (children (t ! i)) scores))
                 in Inr (Some (random_choice rnd k best_children), k + 1))))"

text \<open>
  \<open>_select\<close> walks down the tree. Nothing in its text bounds the walk, so it is a partial
  function: \<open>None\<close> means that the loop does not return.
\<close>

partial_function (option) select ::
  "(rat \<Rightarrow> nat \<Rightarrow> nat \<Rightarrow> rat) \<Rightarrow> (nat \<Rightarrow> nat) \<Rightarrow> tree \<Rightarrow> nat \<Rightarrow> nat \<Rightarrow> (error + nat \<times> nat) option" where
  "select formula rnd t i k =
     (if \<not> is_terminal (t ! i) \<and> is_fully_expanded (t ! i) then
        (case select_best_child formula rnd t i k of
           Inl e \<Rightarrow> Some (Inl e)
         | Inr (None, k') \<Rightarrow> Some (Inr (i, k'))
         | Inr (Some best_child, k') \<Rightarrow> select formula rnd t best_child k')
      else Some (Inr (i, k)))"

declare select.simps [code]

definition expand_node :: "tree \<Rightarrow> nat \<Rightarrow> error + (tree \<times> nat option)" where
  "expand_node t i =
     (if \<not> is_fully_expanded (t ! i) then
        (let move_to_try = last (untried_moves (t ! i));
             t1 = t[i := (t ! i)\<lparr>untried_moves := butlast (untried_moves (t ! i))\<rparr>];
             player = get_next_player (t1 ! i);
             current_state = copy_game (game_state (t1 ! i))
         in case simulate_move current_state move_to_try player of
              Inl e \<Rightarrow> Inl e
            | Inr (current_state', _) \<Rightarrow>
                (let child = length t1;
                     t2 = t1 @ [Node current_state' (Some move_to_try) (Some i) (Some player)];
                     t3 = t2[i := (t2 ! i)\<lparr>children := children (t2 ! i) @ [child]\<rparr>]
                 in Inr (t3, Some child)))
      else Inr (t, None))"

text \<open>
  The playout loop of \<open>simulate\<close> ends because every pass fills an empty cell (a pass
  that places the token 0 is followed by one that places the token 3).
\<close>

lemma find_SomeD: "find P xs = Some x \<Longrightarrow> x \<in> set xs \<and> P x"
  by (induction xs) (auto split: if_splits)

lemma get_next_open_row_Some:
  assumes "get_next_open_row g col = Some row"
  shows "row < rows g \<and> board g ! row ! col = 0"
  using find_SomeD [OF assms [unfolded get_next_open_row_def]] by simp

definition empty_cells :: "game \<Rightarrow> nat" where
  "empty_cells g = sum_list (map (\<lambda>r. count_list r 0) (board g))"

lemma count_list_update:
  assumes "i < length xs"
  shows "count_list (xs[i := v]) a + (if xs ! i = a then 1 else 0)
           = count_list xs a + (if v = a then 1 else 0)"
proof -
  have "count_list (take i xs @ v # drop (Suc i) xs) a + (if xs ! i = a then 1 else 0)
          = count_list (take i xs @ xs ! i # drop (Suc i) xs) a + (if v = a then 1 else 0)"
    by simp
  then show ?thesis
    using assms by (simp add: upd_conv_take_nth_drop id_take_nth_drop [symmetric])
qed

lemma sum_list_map_update:
  fixes f :: "'a \<Rightarrow> nat"
  shows "i < length xs \<Longrightarrow>
     sum_list (map f (xs[i := y])) + f (xs ! i) = sum_list (map f xs) + f y"
proof (induction xs arbitrary: i)
  case Nil
  then show ?case by simp
next
  case (Cons x xs)
  then show ?case by (cases i) auto
qed

lemma simulate_move_empty_cells:
  assumes "simulate_move g col p = Inr (g', u)"
  shows "empty_cells g' + (if p = 0 then 0 else 1) = empty_cells g"
proof -
  from assms obtain row where n: "get_next_open_row g col = Some row"
    and r: "row < length (board g)" and c: "col < length (board g ! row)"
    and g': "g' = g\<lparr>board := (board g)[row := (board g ! row)[col := p]]\<rparr>"
    by (auto simp: simulate_move_def split: option.splits if_splits)
  from n have z: "board g ! row ! col = 0" by (simp add: get_next_open_row_Some)
  from count_list_update [OF c, of p 0] z
  have "count_list ((board g ! row)[col := p]) 0 + 1
          = count_list (board g ! row) 0 + (if p = 0 then 1 else 0)" by simp
  moreover from sum_list_map_update [OF r, of "\<lambda>r. count_list r 0" "(board g ! row)[col := p]"]
  have "empty_cells g' + count_list (board g ! row) 0
          = empty_cells g + count_list ((board g ! row)[col := p]) 0"
    by (simp add: empty_cells_def g')
  ultimately show ?thesis by (simp split: if_splits)
qed

function simulate_loop :: "(nat \<Rightarrow> nat) \<Rightarrow> game \<Rightarrow> int \<Rightarrow> nat \<Rightarrow> error + (int \<times> nat)" where
  "simulate_loop rnd current_state player k =
     (if get_game_state current_state = 0 \<and> length (get_valid_moves current_state) > 0 then
        (let valid_moves = get_valid_moves current_state;
             move_to_make = random_choice rnd k valid_moves
         in case simulate_move current_state move_to_make player of
              Inl e \<Rightarrow> Inl e
            | Inr (current_state', _) \<Rightarrow> simulate_loop rnd current_state' (3 - player) (k + 1))
      else Inr (get_game_state current_state, k))"
  by pat_completeness auto
termination
proof (relation "measure (\<lambda>(rnd, g, player, k). 2 * empty_cells g + (if player = 0 then 1 else 0))")
  show "wf (measure (\<lambda>(rnd, g, player, k). 2 * empty_cells g + (if player = 0 then 1 else 0)))"
    by simp
next
  fix rnd :: "nat \<Rightarrow> nat" and current_state :: game and player :: int and k :: nat
    and valid_moves move_to_make x2 and x :: "game \<times> nat \<times> nat" and current_state' y
  assume "simulate_move current_state move_to_make player = Inr x2"
    and "(current_state', y) = x2"
  then have "simulate_move current_state move_to_make player = Inr (current_state', y)" by simp
  from simulate_move_empty_cells [OF this]
  show "((rnd, current_state', 3 - player, k + 1), (rnd, current_state, player, k))
      \<in> measure (\<lambda>(rnd, g, player, k). 2 * empty_cells g + (if player = 0 then 1 else 0))"
    by (auto split: if_splits)
qed

declare simulate_loop.simps [simp del]

definition simulate :: "(nat \<Rightarrow> nat) \<Rightarrow> node \<Rightarrow> nat \<Rightarrow> error + (int \<times> nat)" where
  "simulate rnd n k = simulate_loop rnd (copy_game (game_state n)) (get_next_player n) k"

text \<open>
  \<open>backpropagate\<close> follows the \<open>parent\<close> references; it is a partial function for the
  same reason as \<open>_select\<close>.
\<close>

partial_function (option) backpropagate :: "tree \<Rightarrow> nat \<Rightarrow> int \<Rightarrow> tree option" where
  "backpropagate t i result =
     (let n1 = (t ! i)\<lparr>visits := visits (t ! i) + 1\<rparr>;
          n2 = (if Some result = player_who_moved n1 then n1\<lparr>wins := wins n1 + 1\<rparr>
                else if result = 3 then n1\<lparr>wins := wins n1 + 1 / 2\<rparr>
                else n1);
          t' = t[i := n2]
      in case parent n2 of
           None \<Rightarrow> Some t'
         | Some q \<Rightarrow> backpropagate t' q result)"

declare backpropagate.simps [code]

text \<open>
  One pass of the loop of \<open>get_move\<close> is \<open>iteration\<close>, the loop is \<open>run_simulations\<close>,
  \<open>max_by_visits\<close> is \<open>max(root.children, key=lambda child: child.visits)\<close> (the first
  child with the greatest key, as Python's \<open>max\<close> returns it) and \<open>choose_move\<close> is the
  rest of \<open>get_move\<close> after the loop. \<open>simulations\<close> is a natural number.
\<close>

definition iteration ::
  "(rat \<Rightarrow> nat \<Rightarrow> nat \<Rightarrow> rat) \<Rightarrow> (nat \<Rightarrow> nat) \<Rightarrow> tree \<Rightarrow> nat \<Rightarrow> (error + tree \<times> nat) option" where
  "iteration formula rnd t k =
     (case select formula rnd t 0 k of
        None \<Rightarrow> None
      | Some (Inl e) \<Rightarrow> Some (Inl e)
      | Some (Inr (nd, k1)) \<Rightarrow>
          (case (if \<not> is_terminal (t ! nd)
                 then (case expand_node t nd of
                         Inl e \<Rightarrow> Inl e
                       | Inr (t1, None) \<Rightarrow> Inr (t1, nd)
                       | Inr (t1, Some expanded_node) \<Rightarrow> Inr (t1, expanded_node))
                 else Inr (t, nd)) of
             Inl e \<Rightarrow> Some (Inl e)
           | Inr (t1, nd1) \<Rightarrow>
               (case simulate rnd (t1 ! nd1) k1 of
                  Inl e \<Rightarrow> Some (Inl e)
                | Inr (result, k2) \<Rightarrow>
                    (case backpropagate t1 nd1 result of
                       None \<Rightarrow> None
                     | Some t2 \<Rightarrow> Some (Inr (t2, k2))))))"

fun run_simulations ::
  "(rat \<Rightarrow> nat \<Rightarrow> nat \<Rightarrow> rat) \<Rightarrow> (nat \<Rightarrow> nat) \<Rightarrow> nat \<Rightarrow> tree \<Rightarrow> nat \<Rightarrow> (error + tree \<times> nat) option" where
  "run_simulations formula rnd 0 t k = Some (Inr (t, k))"
| "run_simulations formula rnd (Suc n) t k =
     (case iteration formula rnd t k of
        None \<Rightarrow> None
      | Some (Inl e) \<Rightarrow> Some (Inl e)
      | Some (Inr (t', k')) \<Rightarrow> run_simulations formula rnd n t' k')"

fun max_by_visits :: "tree \<Rightarrow> nat \<Rightarrow> nat list \<Rightarrow> nat" where
  "max_by_visits t best [] = best"
| "max_by_visits t best (c # cs) =
     (if visits (t ! c) > visits (t ! best) then max_by_visits t c cs
      else max_by_visits t best cs)"

definition choose_move :: "(nat \<Rightarrow> nat) \<Rightarrow> tree \<Rightarrow> nat \<Rightarrow> nat option" where
  "choose_move rnd t k =
     (if children (t ! 0) = [] then
        (let valid_moves = get_valid_moves (game_state (t ! 0)) in
         if valid_moves \<noteq> [] then Some (random_choice rnd k valid_moves) else Some 0)
      else
        (let best_child = max_by_visits t (hd (children (t ! 0))) (tl (children (t ! 0)))
         in move (t ! best_child)))"

definition get_move ::
  "(rat \<Rightarrow> nat \<Rightarrow> nat \<Rightarrow> rat) \<Rightarrow> (nat \<Rightarrow> nat) \<Rightarrow> nat \<Rightarrow> game \<Rightarrow> int \<Rightarrow> nat \<Rightarrow> (error + nat option) option" where
  "get_move formula rnd simulations g player k =
     (case run_simulations formula rnd simulations [Node g None None (Some (3 - player))] k of
        None \<Rightarrow> None
      | Some (Inl e) \<Rightarrow> Some (Inl e)
      | Some (Inr (t, k')) \<Rightarrow> Some (Inr (choose_move rnd t k')))"

subsection \<open>Invariants of the tree\<close>

text \<open>
  \<open>parents_ok\<close>: the root, at address 0, is the only node without parent, and every
  parent is older than its child. \<open>ancestor_or_self t a i\<close>: following \<open>parent\<close> from
  \<open>i\<close> reaches \<open>a\<close>. \<open>same_shape\<close>: two trees differ in \<open>visits\<close> and \<open>wins\<close> only.
  \<open>tree_ok g t\<close> collects what \<open>get_move\<close> maintains for the tree over the game \<open>g\<close>: a
  visited child has a visited parent, children are younger than their parent, every
  game state is well-shaped, untried moves are legal, and the untried moves of the root
  followed by the moves of its children in reverse order are the legal moves of \<open>g\<close> in
  ascending order. \<open>expanded t i st\<close> is the tree after \<open>expand_node\<close> at \<open>i\<close> when the
  move leads to the state \<open>st\<close>.
\<close>

definition parents_ok :: "tree \<Rightarrow> bool" where
  "parents_ok t \<longleftrightarrow>
     (\<forall>i < length t. case parent (t ! i) of None \<Rightarrow> i = 0 | Some q \<Rightarrow> q < i)"

inductive ancestor_or_self :: "tree \<Rightarrow> nat \<Rightarrow> nat \<Rightarrow> bool" for t :: tree where
  self: "ancestor_or_self t i i"
| up: "parent (t ! i) = Some q \<Longrightarrow> ancestor_or_self t a q \<Longrightarrow> ancestor_or_self t a i"

definition same_shape :: "tree \<Rightarrow> tree \<Rightarrow> bool" where
  "same_shape t t' \<longleftrightarrow>
     length t' = length t
     \<and> (\<forall>j < length t. (t' ! j)\<lparr>visits := 0, wins := 0\<rparr> = (t ! j)\<lparr>visits := 0, wins := 0\<rparr>)"

definition tree_ok :: "game \<Rightarrow> tree \<Rightarrow> bool" where
  "tree_ok g t \<longleftrightarrow>
     t \<noteq> [] \<and> game_state (t ! 0) = g \<and> parents_ok t
     \<and> (\<forall>i < length t.
           (\<forall>q. parent (t ! i) = Some q \<longrightarrow> visits (t ! i) \<le> visits (t ! q))
         \<and> (\<forall>c \<in> set (children (t ! i)). i < c \<and> c < length t)
         \<and> wf_game (game_state (t ! i))
         \<and> set (untried_moves (t ! i)) \<subseteq> set (get_valid_moves (game_state (t ! i))))
     \<and> map Some (untried_moves (t ! 0)) @ rev (map (\<lambda>c. move (t ! c)) (children (t ! 0)))
           = map Some (get_valid_moves g)"

definition expanded :: "tree \<Rightarrow> nat \<Rightarrow> game \<Rightarrow> tree" where
  "expanded t i st =
     t[i := (t ! i)\<lparr>untried_moves := butlast (untried_moves (t ! i)),
                     children := children (t ! i) @ [length t]\<rparr>]
       @ [Node st (Some (last (untried_moves (t ! i)))) (Some i) (Some (get_next_player (t ! i)))]"

subsection \<open>Runs used below\<close>

text \<open>
  A formula and a sequence of random numbers for the concrete runs, the tree that
  \<open>get_move\<close> has built when its loop ends, the moves and visit counts of the root's
  children, and the tree of a root, its first child and that child's first child.
\<close>

definition exploitation_only :: "rat \<Rightarrow> nat \<Rightarrow> nat \<Rightarrow> rat" where
  "exploitation_only w v pv = w / of_nat v"

definition alternate :: "nat \<Rightarrow> nat" where
  "alternate k = k mod 2"

definition final_tree ::
  "(rat \<Rightarrow> nat \<Rightarrow> nat \<Rightarrow> rat) \<Rightarrow> (nat \<Rightarrow> nat) \<Rightarrow> nat \<Rightarrow> game \<Rightarrow> int \<Rightarrow> nat \<Rightarrow> tree" where
  "final_tree formula rnd simulations g player k =
     (case run_simulations formula rnd simulations [Node g None None (Some (3 - player))] k of
        Some (Inr (t, k')) \<Rightarrow> t
      | _ \<Rightarrow> [])"

definition root_children_stats :: "tree \<Rightarrow> (nat option \<times> nat) list" where
  "root_children_stats t = map (\<lambda>c. (move (t ! c), visits (t ! c))) (children (t ! 0))"

definition chain_tree :: tree where
  "chain_tree =
     (case expand_node [Node (init_game 6 7) None None None] 0 of
        Inr (t1, Some child) \<Rightarrow>
          (case expand_node t1 child of Inr (t2, Some grandchild) \<Rightarrow> t2 | _ \<Rightarrow> [])
      | _ \<Rightarrow> [])"

section \<open>Placing and taking back a token\<close>

text \<open>
  Claim C10. On a well-shaped board, for a column \<open>col\<close> whose lowest empty row is \<open>row\<close>
  and any player \<open>p\<close>: \<open>simulate_move\<close> returns the game with the token placed and the
  undo information \<open>(row, col)\<close>, \<open>undo_move\<close> on that information gives back the game
  exactly as it was, and \<open>current_player\<close> is the same before, between and after.
\<close>

theorem simulate_then_undo_restores:
  assumes "wf_game g" and "col < cols g" and "get_next_open_row g col = Some row"
  shows "\<exists>g1. simulate_move g col p = Inr (g1, (row, col))
              \<and> current_player g1 = current_player g
              \<and> undo_move g1 (row, col) = Inr g"
proof -
  from assms(3) have r: "row < rows g" and z: "board g ! row ! col = 0"
    using get_next_open_row_Some by blast+
  from assms(1) r have lr: "row < length (board g)" by (simp add: wf_game_def)
  with assms(1,2) have lc: "col < length (board g ! row)" by (simp add: wf_game_def)
  let ?g1 = "g\<lparr>board := (board g)[row := (board g ! row)[col := p]]\<rparr>"
  have s: "simulate_move g col p = Inr (?g1, (row, col))"
    using assms(3) lr lc by (simp add: simulate_move_def)
  have "((board g ! row)[col := p])[col := 0] = board g ! row"
    using z lc by (simp add: list_update_same_conv)
  then have "(board ?g1)[row := (board ?g1 ! row)[col := 0]] = board g"
    using lr by (simp add: list_update_same_conv)
  then have "undo_move ?g1 (row, col) = Inr g"
    using lr lc by (simp add: undo_move_def)
  with s show ?thesis by simp
qed

theorem simulate_then_undo_restores_witness:
  "(let g = init_game 6 7 in
    wf_game g \<and> (3::nat) < cols g \<and> get_next_open_row g 3 = Some 5
    \<and> (\<exists>g1. simulate_move g 3 1 = Inr (g1, (5, 3))
          \<and> current_player g1 = current_player g \<and> undo_move g1 (5, 3) = Inr g))"
proof -
  have w: "wf_game (init_game 6 7)" by (simp add: wf_game_def init_game_def)
  have c: "(3::nat) < cols (init_game 6 7)" by (simp add: init_game_def)
  have n: "get_next_open_row (init_game 6 7) 3 = Some 5"
    by (simp add: get_next_open_row_def init_game_def upt_rec)
  show ?thesis
    using w c n simulate_then_undo_restores [OF w c n, of 1] by (simp add: Let_def)
qed

section \<open>The heuristic evaluation\<close>

text \<open>
  Claim C1 (the code departs from it). The window component is claimed to sum the window
  score over the horizontal windows of every row. The horizontal loop of the source
  runs over \<open>range(self.rows-3)\<close>, the top rows only. In \<open>low_pair_position\<close> the
  bottom row holds the window 1, 1, 0, 0 of player 1, worth +10; the sum over every
  window is 10, the source's window component is 0 and \<open>evaluate_position\<close> returns the
  center bonus 1 alone.
\<close>

theorem horizontal_windows_skip_lower_rows:
  "get_game_state low_pair_position = 0
   \<and> [1, 1, 0, 0] \<in> set (spec_horizontal_windows low_pair_position)
   \<and> [1, 1, 0, 0] \<notin> set (horizontal_windows low_pair_position)
   \<and> evaluate_window [1, 1, 0, 0] 1 = 10
   \<and> spec_window_score low_pair_position 1 = 10
   \<and> window_score low_pair_position 1 = 0
   \<and> evaluate_position low_pair_position 1 = 1"
  by code_simp

lemma evaluate_window_bound: "\<bar>evaluate_window w p\<bar> \<le> 100"
  by (simp add: evaluate_window_def Let_def THREE_IN_ROW_def TWO_IN_ROW_def)

lemma sum_list_abs_bound:
  "(\<And>x. x \<in> set xs \<Longrightarrow> \<bar>f x\<bar> \<le> (b::int)) \<Longrightarrow> \<bar>sum_list (map f xs)\<bar> \<le> b * int (length xs)"
proof (induction xs)
  case Nil
  then show ?case by simp
next
  case (Cons x xs)
  then have "\<bar>f x\<bar> \<le> b" and "\<bar>sum_list (map f xs)\<bar> \<le> b * int (length xs)" by simp_all
  then show ?case by (simp add: algebra_simps)
qed

lemma window_score_bound: "\<bar>window_score g p\<bar> \<le> 100 * int (window_count g)"
proof -
  let ?ws = "horizontal_windows g @ vertical_windows g
               @ positive_diagonal_windows g @ negative_diagonal_windows g"
  have "length ?ws = window_count g"
    by (simp add: horizontal_windows_def vertical_windows_def positive_diagonal_windows_def
        negative_diagonal_windows_def window_count_def)
  moreover have "\<bar>sum_list (map (\<lambda>w. evaluate_window w p) ?ws)\<bar> \<le> 100 * int (length ?ws)"
    by (rule sum_list_abs_bound) (rule evaluate_window_bound)
  ultimately show ?thesis by (simp add: window_score_def)
qed

lemma bonus_loop_sum:
  "bonus_loop g player cells bonus =
     bonus + sum_list (map (\<lambda>(row, col). if board g ! row ! col = player then cell_bonus g col else 0) cells)"
  by (induction g player cells bonus rule: bonus_loop.induct)
     (simp_all add: Let_def CENTER_BONUS_def cell_bonus_def)

lemma center_bonus_bound:
  "0 \<le> center_bonus g player \<and> center_bonus g player \<le> 3 * int (rows g * cols g)"
proof -
  let ?cells = "List.product [0..<rows g] [0..<cols g]"
  let ?f = "\<lambda>(row, col). if board g ! row ! col = player then cell_bonus g col else 0"
  have f: "0 \<le> ?f x \<and> \<bar>?f x\<bar> \<le> 3" for x
    by (cases x) (simp add: cell_bonus_def)
  have c: "center_bonus g player = sum_list (map ?f ?cells)"
    by (simp add: center_bonus_def bonus_loop_sum)
  have "0 \<le> sum_list (map ?f ?cells)"
    by (rule sum_list_nonneg) (use f in auto)
  moreover have "\<bar>sum_list (map ?f ?cells)\<bar> \<le> 3 * int (length ?cells)"
    by (rule sum_list_abs_bound) (use f in blast)
  ultimately show ?thesis
    unfolding c by simp
qed

lemma center_bonus_sum:
  "center_bonus g player =
     (\<Sum>(row, col) \<in> {(r, c). r < rows g \<and> c < cols g \<and> board g ! r ! c = player}. cell_bonus g col)"
proof -
  let ?cells = "List.product [0..<rows g] [0..<cols g]"
  let ?f = "\<lambda>(row, col). if board g ! row ! col = player then cell_bonus g col else 0"
  have d: "distinct ?cells" by (simp add: distinct_product)
  have "center_bonus g player = sum_list (map ?f ?cells)"
    by (simp add: center_bonus_def bonus_loop_sum)
  also have "\<dots> = sum ?f (set ?cells)"
    using d by (simp add: sum_list_distinct_conv_sum_set)
  also have "\<dots> = (\<Sum>x \<in> set ?cells. if (case x of (r, c) \<Rightarrow> board g ! r ! c = player)
                                      then (case x of (r, c) \<Rightarrow> cell_bonus g c) else 0)"
    by (auto intro!: sum.cong)
  also have "\<dots> = sum (\<lambda>(row, col). cell_bonus g col)
                      {x \<in> set ?cells. case x of (r, c) \<Rightarrow> board g ! r ! c = player}"
    by (simp add: sum.inter_filter)
  also have "{x \<in> set ?cells. case x of (r, c) \<Rightarrow> board g ! r ! c = player}
      = {(r, c). r < rows g \<and> c < cols g \<and> board g ! r ! c = player}"
    by auto
  finally show ?thesis .
qed

lemma spec_window_score_bound: "\<bar>spec_window_score g p\<bar> \<le> 100 * int (all_window_count g)"
proof -
  let ?ws = "spec_horizontal_windows g @ vertical_windows g
               @ positive_diagonal_windows g @ negative_diagonal_windows g"
  have "length ?ws = all_window_count g"
    by (simp add: spec_horizontal_windows_def vertical_windows_def positive_diagonal_windows_def
        negative_diagonal_windows_def all_window_count_def)
  moreover have "\<bar>sum_list (map (\<lambda>w. evaluate_window w p) ?ws)\<bar> \<le> 100 * int (length ?ws)"
    by (rule sum_list_abs_bound) (rule evaluate_window_bound)
  ultimately show ?thesis by (simp add: spec_window_score_def)
qed

lemma window_count_le: "window_count g \<le> all_window_count g"
proof -
  have "(rows g - 3) * (cols g - 3) \<le> rows g * (cols g - 3)"
    by (rule mult_le_mono1) simp
  then show ?thesis by (simp add: window_count_def all_window_count_def)
qed

text \<open>
  Claim C4, as the code has it. The claim that every Ongoing state scores strictly
  below 1000 in absolute value fails: \<open>heavy_position\<close> is Ongoing and scores 1121 for
  player 1. This does not come from the rows that the horizontal loop leaves out: with
  the horizontal windows of every row counted, the same position scores 1331.
\<close>

theorem ongoing_score_reaches_terminal_magnitude:
  "get_game_state heavy_position = 0
   \<and> evaluate_position heavy_position 1 = 1121
   \<and> \<not> \<bar>evaluate_position heavy_position 1\<bar> < 1000
   \<and> spec_window_score heavy_position 1 + center_bonus heavy_position 1 = 1331
   \<and> \<not> \<bar>spec_window_score heavy_position 1 + center_bonus heavy_position 1\<bar> < 1000"
  by code_simp

text \<open>
  Claim C4, amended. For a perspective player 1 or 2, \<open>evaluate_position\<close> returns
  exactly 1000 when that player has won, exactly -1000 when the opponent has won and
  exactly 0 on a draw. For an Ongoing state the absolute value of the returned score is
  at most 100 times the number of contiguous four-cell windows of the board plus 3 times
  the number of cells (100 * 69 + 3 * 42 = 7026 on the 6 x 7 board); no bound below 1000
  holds. The same bound holds for the sum over every window plus the center bonus.
\<close>

theorem evaluate_position_terminal_scores_and_bound:
  assumes "player = 1 \<or> player = 2"
  shows "(get_game_state g = player \<longrightarrow> evaluate_position g player = 1000)
       \<and> (get_game_state g = 3 - player \<longrightarrow> evaluate_position g player = - 1000)
       \<and> (get_game_state g = 3 \<longrightarrow> evaluate_position g player = 0)
       \<and> (get_game_state g = 0 \<longrightarrow>
            \<bar>evaluate_position g player\<bar>
              \<le> 100 * int (all_window_count g) + 3 * int (rows g * cols g)
            \<and> \<bar>spec_window_score g player + center_bonus g player\<bar>
              \<le> 100 * int (all_window_count g) + 3 * int (rows g * cols g))"
proof -
  have "int (window_count g) \<le> int (all_window_count g)"
    using window_count_le [of g] by simp
  then have a: "\<bar>window_score g player + center_bonus g player\<bar>
          \<le> 100 * int (all_window_count g) + 3 * int (rows g * cols g)"
    using window_score_bound [of g player] center_bonus_bound [of g player] by linarith
  have b: "\<bar>spec_window_score g player + center_bonus g player\<bar>
          \<le> 100 * int (all_window_count g) + 3 * int (rows g * cols g)"
    using spec_window_score_bound [of g player] center_bonus_bound [of g player] by linarith
  have c: "evaluate_position g player = window_score g player + center_bonus g player"
    if "get_game_state g = 0"
    using that assms by (auto simp: evaluate_position_def Let_def)
  have d: "(get_game_state g = player \<longrightarrow> evaluate_position g player = 1000)
       \<and> (get_game_state g = 3 - player \<longrightarrow> evaluate_position g player = - 1000)
       \<and> (get_game_state g = 3 \<longrightarrow> evaluate_position g player = 0)"
    using assms by (auto simp: evaluate_position_def Let_def)
  from a b c d show ?thesis by (simp del: of_nat_mult)
qed

theorem evaluate_position_terminal_scores_and_bound_witness:
  "get_game_state diagonal_position = 1 \<and> evaluate_position diagonal_position 1 = 1000
   \<and> evaluate_position diagonal_position 2 = - 1000
   \<and> get_game_state drawn_position = 3 \<and> evaluate_position drawn_position 1 = 0
   \<and> get_game_state heavy_position = 0
   \<and> \<bar>evaluate_position heavy_position 1\<bar>
        \<le> 100 * int (all_window_count heavy_position)
           + 3 * int (rows heavy_position * cols heavy_position)
   \<and> 100 * int (all_window_count heavy_position)
        + 3 * int (rows heavy_position * cols heavy_position) = 7026"
proof -
  have p1: "(1::int) = 1 \<or> (1::int) = 2" and p2: "(2::int) = 1 \<or> (2::int) = 2" by simp_all
  have d: "get_game_state diagonal_position = 1" by code_simp
  have d': "get_game_state diagonal_position = 3 - 2" by code_simp
  have f: "get_game_state drawn_position = 3" by code_simp
  have h: "get_game_state heavy_position = 0" by code_simp
  have n: "100 * int (all_window_count heavy_position)
        + 3 * int (rows heavy_position * cols heavy_position) = 7026" by code_simp
  have a: "evaluate_position diagonal_position 1 = 1000"
    using d evaluate_position_terminal_scores_and_bound [OF p1, of diagonal_position] by blast
  have b: "evaluate_position diagonal_position 2 = - 1000"
    using d' evaluate_position_terminal_scores_and_bound [OF p2, of diagonal_position] by blast
  have c: "evaluate_position drawn_position 1 = 0"
    using f evaluate_position_terminal_scores_and_bound [OF p1, of drawn_position] by blast
  have e: "\<bar>evaluate_position heavy_position 1\<bar>
        \<le> 100 * int (all_window_count heavy_position)
           + 3 * int (rows heavy_position * cols heavy_position)"
    using h evaluate_position_terminal_scores_and_bound [OF p1, of heavy_position] by blast
  show ?thesis
    using d f h n a b c e by blast
qed

text \<open>
  Claim C9. For an Ongoing state and a perspective player 1 or 2, \<open>evaluate_position\<close>
  is the window component plus, for each cell holding the perspective player's own
  token, \<open>max(0, 3 - |column - cols // 2|)\<close>. The sum ranges over the cells with the
  player's token only: a cell with the opponent's token contributes no term.
\<close>

theorem center_bonus_own_tokens_only:
  assumes "get_game_state g = 0" and "player = 1 \<or> player = 2"
  shows "evaluate_position g player = window_score g player
           + (\<Sum>(row, col) \<in> {(r, c). r < rows g \<and> c < cols g \<and> board g ! r ! c = player}.
                max 0 (3 - \<bar>int col - int (cols g div 2)\<bar>))"
  using assms center_bonus_sum [of g player]
  by (auto simp: evaluate_position_def Let_def cell_bonus_def)

theorem center_bonus_own_tokens_only_witness:
  "get_game_state low_pair_position = 0 \<and> ((1::int) = 1 \<or> (1::int) = 2)
   \<and> evaluate_position low_pair_position 1 = window_score low_pair_position 1
        + (\<Sum>(row, col) \<in> {(r, c). r < rows low_pair_position \<and> c < cols low_pair_position
                                  \<and> board low_pair_position ! r ! c = 1}.
             max 0 (3 - \<bar>int col - int (cols low_pair_position div 2)\<bar>))"
proof -
  have h: "get_game_state low_pair_position = 0" by code_simp
  have p: "(1::int) = 1 \<or> (1::int) = 2" by simp
  show ?thesis
    using h p center_bonus_own_tokens_only [OF h p] by simp
qed

section \<open>The check after a move\<close>

text \<open>
  Claim C5 (the code departs from it). \<open>is_winning_move\<close> pairs the start rows and the
  start columns of the diagonal windows with \<open>zip\<close>, each range clipped on its own, so
  away from the middle of the board the windows it reads do not pass through the given
  cell. In \<open>diagonal_position\<close> player 1 has just placed the token at row 3, column 1
  and holds the whole diagonal (2,0), (3,1), (4,2), (5,3): a window through the cell
  consists of the mover's tokens and \<open>get_game_state\<close> reports the win, yet
  \<open>is_winning_move(3, 1)\<close> returns \<open>False\<close>.
\<close>

theorem is_winning_move_misses_diagonal:
  "board diagonal_position ! 3 ! 1 = current_player diagonal_position
   \<and> spec_window_through diagonal_position 3 1
   \<and> get_game_state diagonal_position = 1
   \<and> is_winning_move diagonal_position 3 1 = Inr False"
  by code_simp

section \<open>Properties of the depth-limited search\<close>

lemma ext_simps [simp]:
  "MInf \<le> x" "x \<le> PInf" "\<not> x < MInf" "\<not> PInf < x"
  "x \<le> MInf \<longleftrightarrow> x = MInf" "PInf \<le> x \<longleftrightarrow> x = PInf"
  "MInf < Fin a" "Fin a < PInf" "MInf < PInf"
  "Fin a \<le> Fin b \<longleftrightarrow> a \<le> b" "Fin a < Fin b \<longleftrightarrow> a < b"
  "max MInf x = x" "max x MInf = x" "min PInf x = x" "min x PInf = x"
  by (cases x; auto simp: less_ext_def max_def min_def)+

lemma find_Some_ex: "x \<in> set xs \<Longrightarrow> P x \<Longrightarrow> \<exists>y. find P xs = Some y"
  by (cases "find P xs") (auto simp: find_None_iff)

lemma valid_move_facts:
  assumes "col \<in> set (get_valid_moves g)"
  shows "col < cols g" and "board g ! 0 ! col = 0"
  using assms by (auto simp: get_valid_moves_def is_valid_location_def)

lemma simulate_move_valid:
  assumes w: "wf_game g" and v: "col \<in> set (get_valid_moves g)"
  shows "\<exists>row g1. simulate_move g col p = Inr (g1, (row, col)) \<and> wf_game g1
            \<and> undo_move g1 (row, col) = Inr g"
proof -
  from v have c: "col < cols g" and z0: "board g ! 0 ! col = 0" by (rule valid_move_facts)+
  from w have "0 \<in> set (rev [0..<rows g])" by (simp add: wf_game_def)
  with z0 obtain row where n: "get_next_open_row g col = Some row"
    unfolding get_next_open_row_def using find_Some_ex [of 0 _ "\<lambda>r. board g ! r ! col = 0"] by blast
  then have r: "row < rows g" and z: "board g ! row ! col = 0"
    using get_next_open_row_Some by blast+
  from w r have lr: "row < length (board g)" by (simp add: wf_game_def)
  with w c have lc: "col < length (board g ! row)" by (simp add: wf_game_def)
  let ?g1 = "g\<lparr>board := (board g)[row := (board g ! row)[col := p]]\<rparr>"
  have s: "simulate_move g col p = Inr (?g1, (row, col))"
    using n lr lc by (simp add: simulate_move_def)
  have "((board g ! row)[col := p])[col := 0] = board g ! row"
    using z lc by (simp add: list_update_same_conv)
  then have "(board ?g1)[row := (board ?g1 ! row)[col := 0]] = board g"
    using lr by (simp add: list_update_same_conv)
  then have u: "undo_move ?g1 (row, col) = Inr g"
    using lr lc by (simp add: undo_move_def)
  have "\<forall>x \<in> set ((board g)[row := (board g ! row)[col := p]]). length x = cols g"
  proof
    fix x assume "x \<in> set ((board g)[row := (board g ! row)[col := p]])"
    then have "x \<in> insert ((board g ! row)[col := p]) (set (board g))"
      using set_update_subset_insert by fastforce
    then show "length x = cols g" using w lr by (auto simp: wf_game_def)
  qed
  then have "wf_game ?g1" using w by (simp add: wf_game_def)
  with s u show ?thesis by blast
qed

lemma try_move_valid:
  assumes w: "wf_game g" and v: "col \<in> set (get_valid_moves g)"
    and s: "search (after_move g col p) = Inr (sc, c, after_move g col p)"
  shows "try_move g col p search = Inr (sc, g)" and "wf_game (after_move g col p)"
proof -
  from simulate_move_valid [OF w v, of p] obtain row g1 where
    a: "simulate_move g col p = Inr (g1, (row, col))" and b: "wf_game g1"
    and c: "undo_move g1 (row, col) = Inr g" by blast
  from a have e: "after_move g col p = g1" by (simp add: after_move_def)
  show "try_move g col p search = Inr (sc, g)"
    using a c s e by (simp add: try_move_def)
  show "wf_game (after_move g col p)" using b e by simp
qed

lemma after_move_wf:
  "wf_game g \<Longrightarrow> col \<in> set (get_valid_moves g) \<Longrightarrow> wf_game (after_move g col p)"
  using simulate_move_valid [of g col p] by (auto simp: after_move_def)

lemma max_loop_total:
  assumes "\<And>col. col \<in> set cs \<Longrightarrow> \<exists>v. cb g col = Inr (Fin v, g)"
  shows "\<exists>m' mc'. max_loop cb cs g m mc = Inr (m', mc', g) \<and> m \<le> m'
           \<and> (m \<noteq> PInf \<and> (cs \<noteq> [] \<or> m \<noteq> MInf) \<longrightarrow> (\<exists>y. m' = Fin y))"
  using assms
proof (induction cs arbitrary: m mc)
  case Nil
  then show ?case by (cases m) auto
next
  case (Cons col rest)
  then obtain v where v: "cb g col = Inr (Fin v, g)" by fastforce
  have r: "\<And>c. c \<in> set rest \<Longrightarrow> \<exists>v. cb g c = Inr (Fin v, g)" using Cons.prems by simp
  show ?case
  proof (cases "Fin v > m")
    case True
    from Cons.IH [OF r, of "Fin v" col] True v show ?thesis
      by (auto simp: less_imp_le dest: less_le_trans)
  next
    case False
    from Cons.IH [OF r, of m mc] False v show ?thesis
      by (cases m) auto
  qed
qed

lemma min_loop_total:
  assumes "\<And>col. col \<in> set cs \<Longrightarrow> \<exists>v. cb g col = Inr (Fin v, g)"
  shows "\<exists>m' mc'. min_loop cb cs g m mc = Inr (m', mc', g) \<and> m' \<le> m
           \<and> (m \<noteq> MInf \<and> (cs \<noteq> [] \<or> m \<noteq> PInf) \<longrightarrow> (\<exists>y. m' = Fin y))"
  using assms
proof (induction cs arbitrary: m mc)
  case Nil
  then show ?case by (cases m) auto
next
  case (Cons col rest)
  then obtain v where v: "cb g col = Inr (Fin v, g)" by fastforce
  have r: "\<And>c. c \<in> set rest \<Longrightarrow> \<exists>v. cb g c = Inr (Fin v, g)" using Cons.prems by simp
  show ?case
  proof (cases "Fin v < m")
    case True
    from Cons.IH [OF r, of "Fin v" col] True v show ?thesis
      by (auto simp: less_imp_le dest: le_less_trans)
  next
    case False
    from Cons.IH [OF r, of m mc] False v show ?thesis
      by (cases m) auto
  qed
qed

lemma max_step_keep:
  fixes alo :: "'a::linorder"
  assumes "bs \<le> alo \<longrightarrow> m \<le> bs" "alo < bs \<longrightarrow> bs = m"
    and "fail_soft_ok (max alo bs) b v r" and "max alo (max bs r) < b"
  shows "max bs r \<le> alo \<longrightarrow> max m v \<le> max bs r" and "alo < max bs r \<longrightarrow> max bs r = max m v"
  using assms by (auto simp: fail_soft_ok_def max_def split: if_splits)

lemma max_step_same_choice:
  fixes alo :: "'a::linorder"
  assumes "\<And>x. alo \<le> x" "bs \<le> alo \<longrightarrow> m \<le> bs" "alo < bs \<longrightarrow> bs = m"
    and "fail_soft_ok (max alo bs) b v r" and "r < b"
  shows "bs < r \<longleftrightarrow> m < v"
proof -
  have "bs = m" using assms(1,2,3) by (metis antisym not_le)
  moreover have "max alo bs = bs" using assms(1) by (simp add: max_def)
  ultimately show ?thesis using assms(4,5) by (auto simp: fail_soft_ok_def)
qed

lemma max_step_break:
  fixes alo :: "'a::linorder"
  assumes "alo < b" "bs < b" "b \<le> max alo (max bs r)" "fail_soft_ok (max alo bs) b v r"
  shows "b \<le> r" and "max bs r = r" and "r \<le> v"
  using assms by (auto simp: fail_soft_ok_def max_def split: if_splits)

lemma ab_max_loop_sound:
  fixes alo b :: score
  assumes ch: "\<And>col a. col \<in> set cs \<Longrightarrow> a < b \<Longrightarrow>
                 \<exists>r v. cab g col a b = Inr (Fin r, g) \<and> cb g col = Inr (Fin v, g)
                        \<and> fail_soft_ok a b (Fin v) (Fin r)"
    and inv: "bs \<le> alo \<longrightarrow> m \<le> bs" "alo < bs \<longrightarrow> bs = m" "max alo bs < b"
  shows "\<exists>bs' bc' m' mc'. ab_max_loop cab cs g (max alo bs) b bs bc = Inr (bs', bc', g)
           \<and> max_loop cb cs g m mc = Inr (m', mc', g)
           \<and> fail_soft_ok alo b m' bs'
           \<and> (alo = MInf \<and> b = PInf \<and> bc = mc \<longrightarrow> bc' = mc')
           \<and> (cs \<noteq> [] \<longrightarrow> (\<exists>x. bs' = Fin x) \<and> (\<exists>y. m' = Fin y))"
  using assms
proof (induction cs arbitrary: bs bc m mc)
  case Nil
  then show ?case by (auto simp: fail_soft_ok_def)
next
  case (Cons col rest)
  let ?a = "max alo bs"
  from Cons.prems(1) [of col ?a] Cons.prems(4) obtain r v where
    r: "cab g col ?a b = Inr (Fin r, g)" and v: "cb g col = Inr (Fin v, g)"
    and f: "fail_soft_ok ?a b (Fin v) (Fin r)" by auto
  have rest: "\<And>c a. c \<in> set rest \<Longrightarrow> a < b \<Longrightarrow>
                 \<exists>r v. cab g c a b = Inr (Fin r, g) \<and> cb g c = Inr (Fin v, g)
                        \<and> fail_soft_ok a b (Fin v) (Fin r)"
    using Cons.prems(1) by simp
  have restb: "\<And>c. c \<in> set rest \<Longrightarrow> \<exists>v. cb g c = Inr (Fin v, g)"
    using Cons.prems(1) [OF _ Cons.prems(4)] by fastforce
  define bs1 where "bs1 = max bs (Fin r)"
  define bc1 where "bc1 = (if Fin r > bs then col else bc)"
  define m1 where "m1 = max m (Fin v)"
  define mc1 where "mc1 = (if Fin v > m then col else mc)"
  have bsb: "bs < b" and a0b: "alo < b"
    using Cons.prems(4) by (auto simp: max_def split: if_splits)
  have mb: "m < b" using Cons.prems(2,3) bsb a0b by (meson le_less_trans not_le)
  have step_ab: "ab_max_loop cab (col # rest) g ?a b bs bc =
      (if b \<le> max alo bs1 then Inr (bs1, bc1, g)
       else ab_max_loop cab rest g (max alo bs1) b bs1 bc1)"
  proof -
    have e: "max (max alo bs) (if bs < Fin r then Fin r else bs)
               = max alo (if bs < Fin r then Fin r else bs)" by (auto simp: max_def)
    have "bs1 = (if bs < Fin r then Fin r else bs)" by (auto simp: bs1_def max_def)
    then show ?thesis using r e by (cases "bs < Fin r") (simp_all add: bc1_def)
  qed
  have step_b: "max_loop cb (col # rest) g m mc = max_loop cb rest g m1 mc1"
  proof -
    have "m1 = (if m < Fin v then Fin v else m)" by (auto simp: m1_def max_def)
    then show ?thesis using v by (cases "m < Fin v") (simp_all add: mc1_def)
  qed
  have fin1: "(\<exists>x. bs1 = Fin x) \<and> (\<exists>y. m1 = Fin y)"
    using bsb mb by (cases bs; cases m) (auto simp: bs1_def m1_def max_def)
  show ?case
  proof (cases "b \<le> max alo bs1")
    case True
    from max_step_break [OF a0b bsb True [unfolded bs1_def] f]
    have brk: "b \<le> Fin r" "bs1 = Fin r" "Fin r \<le> Fin v" by (simp_all add: bs1_def)
    from max_loop_total [of rest cb g m1 mc1] restb obtain m' mc' where
      ml: "max_loop cb rest g m1 mc1 = Inr (m', mc', g)" and ge: "m1 \<le> m'"
      and fin: "m1 \<noteq> PInf \<and> (rest \<noteq> [] \<or> m1 \<noteq> MInf) \<longrightarrow> (\<exists>y. m' = Fin y)" by blast
    have "Fin v \<le> m1" by (simp add: m1_def)
    with brk(3) ge have rm: "Fin r \<le> m'" by (meson order_trans)
    have finm: "\<exists>y. m' = Fin y" using fin fin1 by auto
    have nroot: "\<not> (alo = MInf \<and> b = PInf)" using brk(1) by auto
    have "fail_soft_ok alo b m' (Fin r)"
      using rm brk(1) a0b by (auto simp: fail_soft_ok_def)
    then show ?thesis
      using step_ab step_b ml True brk(2) finm nroot by auto
  next
    case False
    then have nb: "max alo bs1 < b" by (simp only: not_le)
    note k = max_step_keep [OF Cons.prems(2,3) f nb [unfolded bs1_def]]
    have i1: "bs1 \<le> alo \<longrightarrow> m1 \<le> bs1" and i2: "alo < bs1 \<longrightarrow> bs1 = m1"
      using k by (simp_all only: bs1_def m1_def)
    from Cons.IH [OF rest i1 i2 nb, of bc1 mc1] obtain bs' bc' m' mc' where
      l1: "ab_max_loop cab rest g (max alo bs1) b bs1 bc1 = Inr (bs', bc', g)"
      and l2: "max_loop cb rest g m1 mc1 = Inr (m', mc', g)"
      and l3: "fail_soft_ok alo b m' bs'"
      and l4: "alo = MInf \<and> b = PInf \<and> bc1 = mc1 \<longrightarrow> bc' = mc'"
      and l5: "rest \<noteq> [] \<longrightarrow> (\<exists>x. bs' = Fin x) \<and> (\<exists>y. m' = Fin y)" by blast
    have cols: "alo = MInf \<and> b = PInf \<and> bc = mc \<longrightarrow> bc1 = mc1"
    proof (intro impI, elim conjE)
      assume e: "alo = MInf" "b = PInf" "bc = mc"
      have "bs < Fin r \<longleftrightarrow> m < Fin v"
        by (rule max_step_same_choice [OF _ Cons.prems(2,3) f]) (simp_all add: e)
      then show "bc1 = mc1" using e by (simp add: bc1_def mc1_def)
    qed
    have fin: "(\<exists>x. bs' = Fin x) \<and> (\<exists>y. m' = Fin y)"
    proof (cases "rest = []")
      case True
      with l1 l2 have "bs' = bs1" "m' = m1" by simp_all
      with fin1 show ?thesis by simp
    next
      case False
      with l5 show ?thesis by simp
    qed
    show ?thesis
      using step_ab step_b False l1 l2 l3 l4 cols fin by auto
  qed
qed

lemma min_step_keep:
  fixes bhi :: "'a::linorder"
  assumes "bhi \<le> bs \<longrightarrow> bs \<le> m" "bs < bhi \<longrightarrow> bs = m"
    and "fail_soft_ok a (min bhi bs) v r" and "a < min bhi (min bs r)"
  shows "bhi \<le> min bs r \<longrightarrow> min bs r \<le> min m v" and "min bs r < bhi \<longrightarrow> min bs r = min m v"
  using assms by (auto simp: fail_soft_ok_def min_def split: if_splits)

lemma min_step_same_choice:
  fixes bhi :: "'a::linorder"
  assumes "\<And>x. x \<le> bhi" "bhi \<le> bs \<longrightarrow> bs \<le> m" "bs < bhi \<longrightarrow> bs = m"
    and "fail_soft_ok a (min bhi bs) v r" and "a < r"
  shows "r < bs \<longleftrightarrow> v < m"
proof -
  have "bs = m"
  proof (cases "bs < bhi")
    case True
    with assms(3) show ?thesis by simp
  next
    case False
    then have "bhi \<le> bs" by simp
    with assms(2) have "bs \<le> m" by simp
    moreover have "m \<le> bhi" "bs \<le> bhi" using assms(1) by simp_all
    ultimately show ?thesis using \<open>bhi \<le> bs\<close> by (meson antisym order_trans)
  qed
  moreover have "min bhi bs = bs" using assms(1) by (auto simp: min_def intro: antisym)
  ultimately show ?thesis using assms(4,5) by (auto simp: fail_soft_ok_def)
qed

lemma min_step_break:
  fixes bhi :: "'a::linorder"
  assumes "a < bhi" "a < bs" "min bhi (min bs r) \<le> a" "fail_soft_ok a (min bhi bs) v r"
  shows "r \<le> a" and "min bs r = r" and "v \<le> r"
  using assms by (auto simp: fail_soft_ok_def min_def split: if_splits)

lemma ab_min_loop_sound:
  fixes a bhi :: score
  assumes ch: "\<And>col bb. col \<in> set cs \<Longrightarrow> a < bb \<Longrightarrow>
                 \<exists>r v. cab g col a bb = Inr (Fin r, g) \<and> cb g col = Inr (Fin v, g)
                        \<and> fail_soft_ok a bb (Fin v) (Fin r)"
    and inv: "bhi \<le> bs \<longrightarrow> bs \<le> m" "bs < bhi \<longrightarrow> bs = m" "a < min bhi bs"
  shows "\<exists>bs' bc' m' mc'. ab_min_loop cab cs g a (min bhi bs) bs bc = Inr (bs', bc', g)
           \<and> min_loop cb cs g m mc = Inr (m', mc', g)
           \<and> fail_soft_ok a bhi m' bs'
           \<and> (a = MInf \<and> bhi = PInf \<and> bc = mc \<longrightarrow> bc' = mc')
           \<and> (cs \<noteq> [] \<longrightarrow> (\<exists>x. bs' = Fin x) \<and> (\<exists>y. m' = Fin y))"
  using assms
proof (induction cs arbitrary: bs bc m mc)
  case Nil
  then show ?case by (auto simp: fail_soft_ok_def)
next
  case (Cons col rest)
  let ?b = "min bhi bs"
  from Cons.prems(1) [of col ?b] Cons.prems(4) obtain r v where
    r: "cab g col a ?b = Inr (Fin r, g)" and v: "cb g col = Inr (Fin v, g)"
    and f: "fail_soft_ok a ?b (Fin v) (Fin r)" by auto
  have rest: "\<And>c bb. c \<in> set rest \<Longrightarrow> a < bb \<Longrightarrow>
                 \<exists>r v. cab g c a bb = Inr (Fin r, g) \<and> cb g c = Inr (Fin v, g)
                        \<and> fail_soft_ok a bb (Fin v) (Fin r)"
    using Cons.prems(1) by simp
  have restb: "\<And>c. c \<in> set rest \<Longrightarrow> \<exists>v. cb g c = Inr (Fin v, g)"
    using Cons.prems(1) [OF _ Cons.prems(4)] by fastforce
  define bs1 where "bs1 = min bs (Fin r)"
  define bc1 where "bc1 = (if Fin r < bs then col else bc)"
  define m1 where "m1 = min m (Fin v)"
  define mc1 where "mc1 = (if Fin v < m then col else mc)"
  have bsb: "a < bs" and ab0: "a < bhi"
    using Cons.prems(4) by (auto simp: min_def split: if_splits)
  have mb: "a < m" using Cons.prems(2,3) bsb ab0 by (meson less_le_trans not_le)
  have step_ab: "ab_min_loop cab (col # rest) g a ?b bs bc =
      (if min bhi bs1 \<le> a then Inr (bs1, bc1, g)
       else ab_min_loop cab rest g a (min bhi bs1) bs1 bc1)"
  proof -
    have e: "min (min bhi bs) (if Fin r < bs then Fin r else bs)
               = min bhi (if Fin r < bs then Fin r else bs)" by (auto simp: min_def)
    have "bs1 = (if Fin r < bs then Fin r else bs)" by (auto simp: bs1_def min_def)
    then show ?thesis using r e by (cases "Fin r < bs") (simp_all add: bc1_def)
  qed
  have step_b: "min_loop cb (col # rest) g m mc = min_loop cb rest g m1 mc1"
  proof -
    have "m1 = (if Fin v < m then Fin v else m)" by (auto simp: m1_def min_def)
    then show ?thesis using v by (cases "Fin v < m") (simp_all add: mc1_def)
  qed
  have fin1: "(\<exists>x. bs1 = Fin x) \<and> (\<exists>y. m1 = Fin y)"
    using bsb mb by (cases bs; cases m) (auto simp: bs1_def m1_def min_def)
  show ?case
  proof (cases "min bhi bs1 \<le> a")
    case True
    from min_step_break [OF ab0 bsb True [unfolded bs1_def] f]
    have brk: "Fin r \<le> a" "bs1 = Fin r" "Fin v \<le> Fin r" by (simp_all add: bs1_def)
    from min_loop_total [of rest cb g m1 mc1] restb obtain m' mc' where
      ml: "min_loop cb rest g m1 mc1 = Inr (m', mc', g)" and ge: "m' \<le> m1"
      and fin: "m1 \<noteq> MInf \<and> (rest \<noteq> [] \<or> m1 \<noteq> PInf) \<longrightarrow> (\<exists>y. m' = Fin y)" by blast
    have "m1 \<le> Fin v" by (simp add: m1_def)
    with brk(3) ge have rm: "m' \<le> Fin r" by (meson order_trans)
    have finm: "\<exists>y. m' = Fin y" using fin fin1 by auto
    have nroot: "\<not> (a = MInf \<and> bhi = PInf)" using brk(1) by auto
    have "fail_soft_ok a bhi m' (Fin r)"
      using rm brk(1) ab0 by (auto simp: fail_soft_ok_def)
    then show ?thesis
      using step_ab step_b ml True brk(2) finm nroot by auto
  next
    case False
    then have nb: "a < min bhi bs1" by (simp only: not_le)
    note k = min_step_keep [OF Cons.prems(2,3) f nb [unfolded bs1_def]]
    have i1: "bhi \<le> bs1 \<longrightarrow> bs1 \<le> m1" and i2: "bs1 < bhi \<longrightarrow> bs1 = m1"
      using k by (simp_all only: bs1_def m1_def)
    from Cons.IH [OF rest i1 i2 nb, of bc1 mc1] obtain bs' bc' m' mc' where
      l1: "ab_min_loop cab rest g a (min bhi bs1) bs1 bc1 = Inr (bs', bc', g)"
      and l2: "min_loop cb rest g m1 mc1 = Inr (m', mc', g)"
      and l3: "fail_soft_ok a bhi m' bs'"
      and l4: "a = MInf \<and> bhi = PInf \<and> bc1 = mc1 \<longrightarrow> bc' = mc'"
      and l5: "rest \<noteq> [] \<longrightarrow> (\<exists>x. bs' = Fin x) \<and> (\<exists>y. m' = Fin y)" by blast
    have cols: "a = MInf \<and> bhi = PInf \<and> bc = mc \<longrightarrow> bc1 = mc1"
    proof (intro impI, elim conjE)
      assume e: "a = MInf" "bhi = PInf" "bc = mc"
      have "Fin r < bs \<longleftrightarrow> Fin v < m"
        by (rule min_step_same_choice [OF _ Cons.prems(2,3) f]) (simp_all add: e)
      then show "bc1 = mc1" using e by (simp add: bc1_def mc1_def)
    qed
    have fin: "(\<exists>x. bs' = Fin x) \<and> (\<exists>y. m' = Fin y)"
    proof (cases "rest = []")
      case True
      with l1 l2 have "bs' = bs1" "m' = m1" by simp_all
      with fin1 show ?thesis by simp
    next
      case False
      with l5 show ?thesis by simp
    qed
    show ?thesis
      using step_ab step_b False l1 l2 l3 l4 cols fin by auto
  qed
qed

lemma max_loop_col:
  "max_loop child cs g bs bc = Inr (bs', bc', g') \<Longrightarrow> bc' \<in> insert bc (set cs)"
  by (induction cs arbitrary: g bs bc) (auto split: sum.splits if_splits)

lemma min_loop_col:
  "min_loop child cs g bs bc = Inr (bs', bc', g') \<Longrightarrow> bc' \<in> insert bc (set cs)"
  by (induction cs arbitrary: g bs bc) (auto split: sum.splits if_splits)

lemma ab_max_loop_col:
  "ab_max_loop child cs g a b bs bc = Inr (bs', bc', g') \<Longrightarrow> bc' \<in> insert bc (set cs)"
  by (induction cs arbitrary: g a bs bc) (auto simp: Let_def split: sum.splits if_splits)

lemma ab_min_loop_col:
  "ab_min_loop child cs g a b bs bc = Inr (bs', bc', g') \<Longrightarrow> bc' \<in> insert bc (set cs)"
  by (induction cs arbitrary: g b bs bc) (auto simp: Let_def split: sum.splits if_splits)

lemma minimax_ab_sound:
  assumes "wf_game g" and "alpha < beta"
  shows "\<exists>r v c c'. minimax_ab g d alpha beta mx p = Inr (Fin r, c, g)
            \<and> minimax_basic g d mx p = Inr (Fin v, c', g)
            \<and> fail_soft_ok alpha beta (Fin v) (Fin r)
            \<and> (alpha = MInf \<and> beta = PInf \<longrightarrow> c = c')
            \<and> (c = None \<or> (\<exists>bc. c = Some bc \<and> bc \<in> set (get_valid_moves g)))
            \<and> (c' = None \<or> (\<exists>bc. c' = Some bc \<and> bc \<in> set (get_valid_moves g)))
            \<and> (0 < d \<and> get_game_state g = 0 \<and> get_valid_moves g \<noteq> [] \<longrightarrow> c \<noteq> None)
            \<and> (0 < d \<and> get_game_state g = 0 \<and> get_valid_moves g \<noteq> [] \<longrightarrow> c' \<noteq> None)"
  using assms
proof (induction d arbitrary: g alpha beta mx)
  case 0
  show ?case
    by (subst minimax_ab.simps, subst minimax_basic.simps) (simp add: fail_soft_ok_def)
next
  case (Suc d)
  let ?vm = "get_valid_moves g"
  show ?case
  proof (cases "get_game_state g \<noteq> 0 \<or> ?vm = []")
    case True
    then show ?thesis
      by (subst minimax_ab.simps, subst minimax_basic.simps)
         (auto simp: fail_soft_ok_def Let_def)
  next
    case False
    then have on: "get_game_state g = 0" and ne: "?vm \<noteq> []" by simp_all
    show ?thesis
    proof (cases mx)
      case True
      let ?cab = "\<lambda>g' col a b. try_move g' col p (\<lambda>g1. minimax_ab g1 (Suc d - 1) a b False p)"
      let ?cb = "\<lambda>g' col. try_move g' col p (\<lambda>g1. minimax_basic g1 (Suc d - 1) False p)"
      have ch: "\<exists>r v. ?cab g col a beta = Inr (Fin r, g) \<and> ?cb g col = Inr (Fin v, g)
                        \<and> fail_soft_ok a beta (Fin v) (Fin r)"
        if "col \<in> set ?vm" "a < beta" for col a
      proof -
        have w1: "wf_game (after_move g col p)" using after_move_wf [OF Suc.prems(1) that(1)] .
        from Suc.IH [OF w1 that(2), of False] obtain r v c c' where
          x: "minimax_ab (after_move g col p) d a beta False p = Inr (Fin r, c, after_move g col p)"
          and y: "minimax_basic (after_move g col p) d False p = Inr (Fin v, c', after_move g col p)"
          and z: "fail_soft_ok a beta (Fin v) (Fin r)" by blast
        have "?cab g col a beta = Inr (Fin r, g)"
          by (rule try_move_valid(1) [OF Suc.prems(1) that(1)]) (use x in simp)
        moreover have "?cb g col = Inr (Fin v, g)"
          by (rule try_move_valid(1) [OF Suc.prems(1) that(1)]) (use y in simp)
        ultimately show ?thesis using z by blast
      qed
      have lt: "max alpha MInf < beta" using Suc.prems(2) by simp
      have "\<exists>bs' bc' m' mc'. ab_max_loop ?cab ?vm g (max alpha MInf) beta MInf (?vm ! 0) = Inr (bs', bc', g)
           \<and> max_loop ?cb ?vm g MInf (?vm ! 0) = Inr (m', mc', g)
           \<and> fail_soft_ok alpha beta m' bs'
           \<and> (alpha = MInf \<and> beta = PInf \<and> ?vm ! 0 = ?vm ! 0 \<longrightarrow> bc' = mc')
           \<and> (?vm \<noteq> [] \<longrightarrow> (\<exists>x. bs' = Fin x) \<and> (\<exists>y. m' = Fin y))"
      proof (rule ab_max_loop_sound [where cab = ?cab and cb = ?cb and alo = alpha and bs = MInf
            and m = MInf and b = beta and g = g and cs = ?vm])
        show "\<exists>r v. ?cab g col a beta = Inr (Fin r, g) \<and> ?cb g col = Inr (Fin v, g)
                \<and> fail_soft_ok a beta (Fin v) (Fin r)"
          if "col \<in> set ?vm" "a < beta" for col a using ch [OF that] .
      qed (use lt in simp_all)
      then obtain x bc' y mc' where
        l1: "ab_max_loop ?cab ?vm g alpha beta MInf (?vm ! 0) = Inr (Fin x, bc', g)"
        and l2: "max_loop ?cb ?vm g MInf (?vm ! 0) = Inr (Fin y, mc', g)"
        and l3: "fail_soft_ok alpha beta (Fin y) (Fin x)"
        and l4: "alpha = MInf \<and> beta = PInf \<longrightarrow> bc' = mc'"
        using ne by auto
      have mem: "mc' \<in> set ?vm" "bc' \<in> set ?vm"
        using max_loop_col [OF l2] ab_max_loop_col [OF l1] ne by auto
      show ?thesis
        using l1 l2 l3 l4 mem on ne True
        by (subst minimax_ab.simps, subst minimax_basic.simps) (simp add: Let_def)
    next
      case False
      let ?cab = "\<lambda>g' col a b. try_move g' col (3 - p) (\<lambda>g1. minimax_ab g1 (Suc d - 1) a b True p)"
      let ?cb = "\<lambda>g' col. try_move g' col (3 - p) (\<lambda>g1. minimax_basic g1 (Suc d - 1) True p)"
      have ch: "\<exists>r v. ?cab g col alpha b = Inr (Fin r, g) \<and> ?cb g col = Inr (Fin v, g)
                        \<and> fail_soft_ok alpha b (Fin v) (Fin r)"
        if "col \<in> set ?vm" "alpha < b" for col b
      proof -
        have w1: "wf_game (after_move g col (3 - p))"
          using after_move_wf [OF Suc.prems(1) that(1)] .
        from Suc.IH [OF w1 that(2), of True] obtain r v c c' where
          x: "minimax_ab (after_move g col (3 - p)) d alpha b True p
                = Inr (Fin r, c, after_move g col (3 - p))"
          and y: "minimax_basic (after_move g col (3 - p)) d True p
                = Inr (Fin v, c', after_move g col (3 - p))"
          and z: "fail_soft_ok alpha b (Fin v) (Fin r)" by blast
        have "?cab g col alpha b = Inr (Fin r, g)"
          by (rule try_move_valid(1) [OF Suc.prems(1) that(1)]) (use x in simp)
        moreover have "?cb g col = Inr (Fin v, g)"
          by (rule try_move_valid(1) [OF Suc.prems(1) that(1)]) (use y in simp)
        ultimately show ?thesis using z by blast
      qed
      have lt: "alpha < min beta PInf" using Suc.prems(2) by simp
      have "\<exists>bs' bc' m' mc'. ab_min_loop ?cab ?vm g alpha (min beta PInf) PInf (?vm ! 0) = Inr (bs', bc', g)
           \<and> min_loop ?cb ?vm g PInf (?vm ! 0) = Inr (m', mc', g)
           \<and> fail_soft_ok alpha beta m' bs'
           \<and> (alpha = MInf \<and> beta = PInf \<and> ?vm ! 0 = ?vm ! 0 \<longrightarrow> bc' = mc')
           \<and> (?vm \<noteq> [] \<longrightarrow> (\<exists>x. bs' = Fin x) \<and> (\<exists>y. m' = Fin y))"
      proof (rule ab_min_loop_sound [where cab = ?cab and cb = ?cb and a = alpha and bs = PInf
            and m = PInf and bhi = beta and g = g and cs = ?vm])
        show "\<exists>r v. ?cab g col alpha bb = Inr (Fin r, g) \<and> ?cb g col = Inr (Fin v, g)
                \<and> fail_soft_ok alpha bb (Fin v) (Fin r)"
          if "col \<in> set ?vm" "alpha < bb" for col bb using ch [OF that] .
      qed (use lt in simp_all)
      then obtain x bc' y mc' where
        l1: "ab_min_loop ?cab ?vm g alpha beta PInf (?vm ! 0) = Inr (Fin x, bc', g)"
        and l2: "min_loop ?cb ?vm g PInf (?vm ! 0) = Inr (Fin y, mc', g)"
        and l3: "fail_soft_ok alpha beta (Fin y) (Fin x)"
        and l4: "alpha = MInf \<and> beta = PInf \<longrightarrow> bc' = mc'"
        using ne by auto
      have mem: "mc' \<in> set ?vm" "bc' \<in> set ?vm"
        using min_loop_col [OF l2] ab_min_loop_col [OF l1] ne by auto
      show ?thesis
        using l1 l2 l3 l4 mem on ne False
        by (subst minimax_ab.simps, subst minimax_basic.simps) (simp add: Let_def)
    qed
  qed
qed

lemma first_greatest_Cons_new:
  "\<forall>x \<in> set ex. snd x \<le> s \<Longrightarrow> first_greatest ((c, s) # ex) s c"
  unfolding first_greatest_def by (rule exI [of _ "[]"]) simp

lemma first_greatest_Cons_old:
  "first_greatest ex s c \<Longrightarrow> s0 < s \<Longrightarrow> first_greatest ((c0, s0) # ex) s c"
  unfolding first_greatest_def
  by (elim exE conjE) (rule_tac x = "(c0, s0) # before" in exI, auto)

lemma first_least_Cons_new:
  "\<forall>x \<in> set ex. s \<le> snd x \<Longrightarrow> first_least ((c, s) # ex) s c"
  unfolding first_least_def by (rule exI [of _ "[]"]) simp

lemma first_least_Cons_old:
  "first_least ex s c \<Longrightarrow> s < s0 \<Longrightarrow> first_least ((c0, s0) # ex) s c"
  unfolding first_least_def
  by (elim exE conjE) (rule_tac x = "(c0, s0) # before" in exI, auto)

lemma max_loop_first:
  assumes "max_loop child cs g bs bc = Inr (bs', bc', g')"
  shows "map fst (loop_examined child cs g) = cs
         \<and> ((bs' = bs \<and> bc' = bc \<and> (\<forall>x \<in> set (loop_examined child cs g). snd x \<le> bs))
             \<or> (bs < bs' \<and> first_greatest (loop_examined child cs g) bs' bc'))"
  using assms
proof (induction cs arbitrary: g bs bc)
  case Nil
  then show ?case by simp
next
  case (Cons col rest)
  from Cons.prems obtain score g1 where c: "child g col = Inr (score, g1)"
    by (auto split: sum.splits)
  show ?case
  proof (cases "bs < score")
    case True
    with Cons.prems c have "max_loop child rest g1 score col = Inr (bs', bc', g')" by simp
    from Cons.IH [OF this] True c show ?thesis
      by (auto intro: first_greatest_Cons_new first_greatest_Cons_old dest: less_trans)
  next
    case False
    with Cons.prems c have "max_loop child rest g1 bs bc = Inr (bs', bc', g')" by simp
    from Cons.IH [OF this] False c show ?thesis
      by (auto intro: first_greatest_Cons_old simp: not_less dest: le_less_trans)
  qed
qed

lemma min_loop_first:
  assumes "min_loop child cs g bs bc = Inr (bs', bc', g')"
  shows "map fst (loop_examined child cs g) = cs
         \<and> ((bs' = bs \<and> bc' = bc \<and> (\<forall>x \<in> set (loop_examined child cs g). bs \<le> snd x))
             \<or> (bs' < bs \<and> first_least (loop_examined child cs g) bs' bc'))"
  using assms
proof (induction cs arbitrary: g bs bc)
  case Nil
  then show ?case by simp
next
  case (Cons col rest)
  from Cons.prems obtain score g1 where c: "child g col = Inr (score, g1)"
    by (auto split: sum.splits)
  show ?case
  proof (cases "score < bs")
    case True
    with Cons.prems c have "min_loop child rest g1 score col = Inr (bs', bc', g')" by simp
    from Cons.IH [OF this] True c show ?thesis
      by (auto intro: first_least_Cons_new first_least_Cons_old dest: less_trans)
  next
    case False
    with Cons.prems c have "min_loop child rest g1 bs bc = Inr (bs', bc', g')" by simp
    from Cons.IH [OF this] False c show ?thesis
      by (auto intro: first_least_Cons_old simp: not_less dest: less_le_trans)
  qed
qed

lemma ab_max_loop_first:
  assumes "ab_max_loop child cs g a b bs bc = Inr (bs', bc', g')"
  shows "(\<exists>k. map fst (ab_max_loop_examined child cs g a b bs) = take k cs)
         \<and> ((bs' = bs \<and> bc' = bc \<and> (\<forall>x \<in> set (ab_max_loop_examined child cs g a b bs). snd x \<le> bs))
             \<or> (bs < bs' \<and> first_greatest (ab_max_loop_examined child cs g a b bs) bs' bc'))"
  using assms
proof (induction cs arbitrary: g a bs bc)
  case Nil
  then show ?case by simp
next
  case (Cons col rest)
  from Cons.prems obtain score g1 where c: "child g col a b = Inr (score, g1)"
    by (auto split: sum.splits)
  define bs1 where "bs1 = (if bs < score then score else bs)"
  define bc1 where "bc1 = (if bs < score then col else bc)"
  have ex: "ab_max_loop_examined child (col # rest) g a b bs =
      (col, score) # (if b \<le> max a bs1 then []
                      else ab_max_loop_examined child rest g1 (max a bs1) b bs1)"
    using c by (simp add: bs1_def Let_def)
  have lp: "(if b \<le> max a bs1 then Inr (bs1, bc1, g1)
             else ab_max_loop child rest g1 (max a bs1) b bs1 bc1) = Inr (bs', bc', g')"
    using Cons.prems c by (cases "bs < score") (auto simp: bs1_def bc1_def Let_def split: if_splits)
  have tk: "\<exists>k. col # take j rest = take k (col # rest)" for j
    by (rule exI [of _ "Suc j"]) simp
  show ?case
  proof (cases "b \<le> max a bs1")
    case True
    with lp have e: "bs' = bs1" "bc' = bc1" by simp_all
    have "\<exists>k. [col] = take k (col # rest)" by (rule exI [of _ 1]) simp
    then show ?thesis
      using ex True e
      by (auto simp: bs1_def bc1_def not_less intro: first_greatest_Cons_new split: if_splits)
  next
    case False
    with lp have "ab_max_loop child rest g1 (max a bs1) b bs1 bc1 = Inr (bs', bc', g')" by simp
    from Cons.IH [OF this] obtain k where
      k: "map fst (ab_max_loop_examined child rest g1 (max a bs1) b bs1) = take k rest"
      and d: "(bs' = bs1 \<and> bc' = bc1
                \<and> (\<forall>x \<in> set (ab_max_loop_examined child rest g1 (max a bs1) b bs1). snd x \<le> bs1))
             \<or> (bs1 < bs' \<and> first_greatest (ab_max_loop_examined child rest g1 (max a bs1) b bs1) bs' bc')"
      by blast
    have p: "\<exists>k. map fst (ab_max_loop_examined child (col # rest) g a b bs) = take k (col # rest)"
      using ex False k tk by simp
    have q: "(bs' = bs \<and> bc' = bc \<and> (\<forall>x \<in> set (ab_max_loop_examined child (col # rest) g a b bs). snd x \<le> bs))
             \<or> (bs < bs' \<and> first_greatest (ab_max_loop_examined child (col # rest) g a b bs) bs' bc')"
    proof (cases "bs < score")
      case True
      then have "bs1 = score" "bc1 = col" by (simp_all add: bs1_def bc1_def)
      with d True ex False show ?thesis
        by (auto intro: first_greatest_Cons_new first_greatest_Cons_old dest: less_trans)
    next
      case False
      then have "bs1 = bs" "bc1 = bc" by (simp_all add: bs1_def bc1_def)
      with d False ex \<open>\<not> b \<le> max a bs1\<close> show ?thesis
        by (auto intro: first_greatest_Cons_old simp: not_less dest: le_less_trans)
    qed
    from p q show ?thesis by blast
  qed
qed

lemma ab_min_loop_first:
  assumes "ab_min_loop child cs g a b bs bc = Inr (bs', bc', g')"
  shows "(\<exists>k. map fst (ab_min_loop_examined child cs g a b bs) = take k cs)
         \<and> ((bs' = bs \<and> bc' = bc \<and> (\<forall>x \<in> set (ab_min_loop_examined child cs g a b bs). bs \<le> snd x))
             \<or> (bs' < bs \<and> first_least (ab_min_loop_examined child cs g a b bs) bs' bc'))"
  using assms
proof (induction cs arbitrary: g b bs bc)
  case Nil
  then show ?case by simp
next
  case (Cons col rest)
  from Cons.prems obtain score g1 where c: "child g col a b = Inr (score, g1)"
    by (auto split: sum.splits)
  define bs1 where "bs1 = (if score < bs then score else bs)"
  define bc1 where "bc1 = (if score < bs then col else bc)"
  have ex: "ab_min_loop_examined child (col # rest) g a b bs =
      (col, score) # (if min b bs1 \<le> a then []
                      else ab_min_loop_examined child rest g1 a (min b bs1) bs1)"
    using c by (simp add: bs1_def Let_def)
  have lp: "(if min b bs1 \<le> a then Inr (bs1, bc1, g1)
             else ab_min_loop child rest g1 a (min b bs1) bs1 bc1) = Inr (bs', bc', g')"
    using Cons.prems c by (cases "score < bs") (auto simp: bs1_def bc1_def Let_def split: if_splits)
  have tk: "\<exists>k. col # take j rest = take k (col # rest)" for j
    by (rule exI [of _ "Suc j"]) simp
  show ?case
  proof (cases "min b bs1 \<le> a")
    case True
    with lp have e: "bs' = bs1" "bc' = bc1" by simp_all
    have "\<exists>k. [col] = take k (col # rest)" by (rule exI [of _ 1]) simp
    then show ?thesis
      using ex True e
      by (auto simp: bs1_def bc1_def not_less intro: first_least_Cons_new split: if_splits)
  next
    case False
    with lp have "ab_min_loop child rest g1 a (min b bs1) bs1 bc1 = Inr (bs', bc', g')" by simp
    from Cons.IH [OF this] obtain k where
      k: "map fst (ab_min_loop_examined child rest g1 a (min b bs1) bs1) = take k rest"
      and d: "(bs' = bs1 \<and> bc' = bc1
                \<and> (\<forall>x \<in> set (ab_min_loop_examined child rest g1 a (min b bs1) bs1). bs1 \<le> snd x))
             \<or> (bs' < bs1 \<and> first_least (ab_min_loop_examined child rest g1 a (min b bs1) bs1) bs' bc')"
      by blast
    have p: "\<exists>k. map fst (ab_min_loop_examined child (col # rest) g a b bs) = take k (col # rest)"
      using ex False k tk by simp
    have q: "(bs' = bs \<and> bc' = bc \<and> (\<forall>x \<in> set (ab_min_loop_examined child (col # rest) g a b bs). bs \<le> snd x))
             \<or> (bs' < bs \<and> first_least (ab_min_loop_examined child (col # rest) g a b bs) bs' bc')"
    proof (cases "score < bs")
      case True
      then have "bs1 = score" "bc1 = col" by (simp_all add: bs1_def bc1_def)
      with d True ex False show ?thesis
        by (auto intro: first_least_Cons_new first_least_Cons_old dest: less_trans)
    next
      case False
      then have "bs1 = bs" "bc1 = bc" by (simp_all add: bs1_def bc1_def)
      with d False ex \<open>\<not> min b bs1 \<le> a\<close> show ?thesis
        by (auto intro: first_least_Cons_old simp: not_less dest: less_le_trans)
    qed
    from p q show ?thesis by blast
  qed
qed

lemma sorted_valid_moves: "sorted_wrt (<) (get_valid_moves g)"
  by (simp add: get_valid_moves_def sorted_wrt_filter)

lemma basic_layer:
  assumes "wf_game g" "get_game_state g = 0" "get_valid_moves g \<noteq> []" "0 < depth"
  shows "\<exists>s c. minimax_basic g depth True p = Inr (Fin s, Some c, g)
            \<and> map fst (basic_examined g depth True p) = get_valid_moves g
            \<and> first_greatest (basic_examined g depth True p) (Fin s) c"
    and "\<exists>s c. minimax_basic g depth False p = Inr (Fin s, Some c, g)
            \<and> map fst (basic_examined g depth False p) = get_valid_moves g
            \<and> first_least (basic_examined g depth False p) (Fin s) c"
proof -
  have lt: "(MInf :: score) < PInf" by simp
  from minimax_ab_sound [OF assms(1) lt, of depth True p] assms(2,3,4)
  obtain s c where r: "minimax_basic g depth True p = Inr (Fin s, Some c, g)" by auto
  let ?ch = "\<lambda>g' col. try_move g' col p (\<lambda>g1. minimax_basic g1 (depth - 1) False p)"
  from r assms(2,3,4) have "max_loop ?ch (get_valid_moves g) g MInf (get_valid_moves g ! 0)
      = Inr (Fin s, c, g)"
    by (subst (asm) minimax_basic.simps) (auto simp: Let_def split: sum.splits)
  from max_loop_first [OF this] r
  show "\<exists>s c. minimax_basic g depth True p = Inr (Fin s, Some c, g)
            \<and> map fst (basic_examined g depth True p) = get_valid_moves g
            \<and> first_greatest (basic_examined g depth True p) (Fin s) c"
    by (auto simp: basic_examined_def)
next
  have lt: "(MInf :: score) < PInf" by simp
  from minimax_ab_sound [OF assms(1) lt, of depth False p] assms(2,3,4)
  obtain s c where r: "minimax_basic g depth False p = Inr (Fin s, Some c, g)" by auto
  let ?ch = "\<lambda>g' col. try_move g' col (3 - p) (\<lambda>g1. minimax_basic g1 (depth - 1) True p)"
  from r assms(2,3,4) have "min_loop ?ch (get_valid_moves g) g PInf (get_valid_moves g ! 0)
      = Inr (Fin s, c, g)"
    by (subst (asm) minimax_basic.simps) (auto simp: Let_def split: sum.splits)
  from min_loop_first [OF this] r
  show "\<exists>s c. minimax_basic g depth False p = Inr (Fin s, Some c, g)
            \<and> map fst (basic_examined g depth False p) = get_valid_moves g
            \<and> first_least (basic_examined g depth False p) (Fin s) c"
    by (auto simp: basic_examined_def)
qed

lemma ab_layer:
  assumes "wf_game g" "get_game_state g = 0" "get_valid_moves g \<noteq> []" "0 < depth"
    and "alpha < beta"
  shows "\<exists>s c k. minimax_ab g depth alpha beta True p = Inr (Fin s, Some c, g)
            \<and> map fst (ab_examined g depth alpha beta True p) = take k (get_valid_moves g)
            \<and> first_greatest (ab_examined g depth alpha beta True p) (Fin s) c"
    and "\<exists>s c k. minimax_ab g depth alpha beta False p = Inr (Fin s, Some c, g)
            \<and> map fst (ab_examined g depth alpha beta False p) = take k (get_valid_moves g)
            \<and> first_least (ab_examined g depth alpha beta False p) (Fin s) c"
proof -
  from minimax_ab_sound [OF assms(1,5), of depth True p] assms(2,3,4)
  obtain s c where r: "minimax_ab g depth alpha beta True p = Inr (Fin s, Some c, g)" by auto
  let ?ch = "\<lambda>g' col a b. try_move g' col p (\<lambda>g1. minimax_ab g1 (depth - 1) a b False p)"
  from r assms(2,3,4) have "ab_max_loop ?ch (get_valid_moves g) g alpha beta MInf (get_valid_moves g ! 0)
      = Inr (Fin s, c, g)"
    by (subst (asm) minimax_ab.simps) (auto simp: Let_def split: sum.splits)
  from ab_max_loop_first [OF this] r
  show "\<exists>s c k. minimax_ab g depth alpha beta True p = Inr (Fin s, Some c, g)
            \<and> map fst (ab_examined g depth alpha beta True p) = take k (get_valid_moves g)
            \<and> first_greatest (ab_examined g depth alpha beta True p) (Fin s) c"
    by (auto simp: ab_examined_def)
next
  from minimax_ab_sound [OF assms(1,5), of depth False p] assms(2,3,4)
  obtain s c where r: "minimax_ab g depth alpha beta False p = Inr (Fin s, Some c, g)" by auto
  let ?ch = "\<lambda>g' col a b. try_move g' col (3 - p) (\<lambda>g1. minimax_ab g1 (depth - 1) a b True p)"
  from r assms(2,3,4) have "ab_min_loop ?ch (get_valid_moves g) g alpha beta PInf (get_valid_moves g ! 0)
      = Inr (Fin s, c, g)"
    by (subst (asm) minimax_ab.simps) (auto simp: Let_def split: sum.splits)
  from ab_min_loop_first [OF this] r
  show "\<exists>s c k. minimax_ab g depth alpha beta False p = Inr (Fin s, Some c, g)
            \<and> map fst (ab_examined g depth alpha beta False p) = take k (get_valid_moves g)
            \<and> first_least (ab_examined g depth alpha beta False p) (Fin s) c"
    by (auto simp: ab_examined_def)
qed

text \<open>
  Claim C7. In a layer of the search (a well-shaped Ongoing game with a legal move,
  positive depth, and for \<open>minimax_ab\<close> a window \<open>alpha < beta\<close>, as at every call the
  search makes) the columns are examined in ascending order: \<open>get_valid_moves\<close> is
  strictly increasing, \<open>minimax_basic\<close> examines all of it and \<open>minimax_ab\<close> an initial
  part of it. In a maximizing layer the returned pair \<open>(best_score, best_col)\<close> is an
  examined pair such that every score examined before it is strictly smaller and no
  score examined after it is greater: the first column that reached the maximum is
  returned, and a later column with an equal score does not replace it. In a minimizing
  layer the same holds with the order reversed. The game is returned unchanged.
\<close>

theorem first_best_column_is_kept:
  assumes "wf_game g" "get_game_state g = 0" "get_valid_moves g \<noteq> []" "0 < depth"
    and "alpha < beta"
  shows "sorted_wrt (<) (get_valid_moves g)
     \<and> (\<exists>s c. minimax_basic g depth True p = Inr (Fin s, Some c, g)
            \<and> map fst (basic_examined g depth True p) = get_valid_moves g
            \<and> first_greatest (basic_examined g depth True p) (Fin s) c)
     \<and> (\<exists>s c. minimax_basic g depth False p = Inr (Fin s, Some c, g)
            \<and> map fst (basic_examined g depth False p) = get_valid_moves g
            \<and> first_least (basic_examined g depth False p) (Fin s) c)
     \<and> (\<exists>s c k. minimax_ab g depth alpha beta True p = Inr (Fin s, Some c, g)
            \<and> map fst (ab_examined g depth alpha beta True p) = take k (get_valid_moves g)
            \<and> first_greatest (ab_examined g depth alpha beta True p) (Fin s) c)
     \<and> (\<exists>s c k. minimax_ab g depth alpha beta False p = Inr (Fin s, Some c, g)
            \<and> map fst (ab_examined g depth alpha beta False p) = take k (get_valid_moves g)
            \<and> first_least (ab_examined g depth alpha beta False p) (Fin s) c)"
  using sorted_valid_moves [of g] basic_layer [OF assms(1-4), of p] ab_layer [OF assms, of p]
  by (intro conjI)

theorem first_best_column_is_kept_witness:
  "wf_game low_pair_position \<and> get_game_state low_pair_position = 0
   \<and> get_valid_moves low_pair_position \<noteq> [] \<and> (0::nat) < 2 \<and> (MInf :: score) < PInf
   \<and> ab_examined low_pair_position 2 MInf PInf True 2
        = [(0, Fin (- 20)), (1, Fin (- 9)), (2, Fin (- 18)), (3, Fin (- 17)),
           (4, Fin (- 18)), (5, Fin (- 9)), (6, Fin (- 10))]
   \<and> minimax_ab low_pair_position 2 MInf PInf True 2 = Inr (Fin (- 9), Some 1, low_pair_position)
   \<and> first_greatest (ab_examined low_pair_position 2 MInf PInf True 2) (Fin (- 9)) 1"
proof -
  have h1: "wf_game low_pair_position" by code_simp
  have h2: "get_game_state low_pair_position = 0" by code_simp
  have h3: "get_valid_moves low_pair_position \<noteq> []" by code_simp
  have h4: "(0::nat) < 2" by simp
  have h5: "(MInf :: score) < PInf" by simp
  have e: "minimax_ab low_pair_position 2 MInf PInf True 2
             = Inr (Fin (- 9), Some 1, low_pair_position)" by code_simp
  have x: "ab_examined low_pair_position 2 MInf PInf True 2
        = [(0, Fin (- 20)), (1, Fin (- 9)), (2, Fin (- 18)), (3, Fin (- 17)),
           (4, Fin (- 18)), (5, Fin (- 9)), (6, Fin (- 10))]" by code_simp
  from first_best_column_is_kept [OF h1 h2 h3 h4 h5, of 2] obtain s c where
    "minimax_ab low_pair_position 2 MInf PInf True 2 = Inr (Fin s, Some c, low_pair_position)"
    and "first_greatest (ab_examined low_pair_position 2 MInf PInf True 2) (Fin s) c"
    by blast
  with e have "first_greatest (ab_examined low_pair_position 2 MInf PInf True 2) (Fin (- 9)) 1"
    by simp
  with h1 h2 h3 h4 h5 e x show ?thesis by blast
qed

text \<open>
  Claim C8. For every well-shaped game, every depth and every player, \<open>get_best_move\<close>
  returns the same column with \<open>use_alpha_beta = True\<close> as with \<open>use_alpha_beta = False\<close>,
  and the root calls \<open>minimax_ab(game, depth, -inf, inf, True, player)\<close> and
  \<open>minimax_basic(game, depth, True, player)\<close> return the same score and the same best
  column (and leave the game as it was).
\<close>

theorem alpha_beta_same_result:
  assumes "wf_game g"
  shows "get_best_move depth True g player = get_best_move depth False g player
       \<and> (\<exists>s c. minimax_ab g depth MInf PInf True player = Inr (Fin s, c, g)
                \<and> minimax_basic g depth True player = Inr (Fin s, c, g))"
proof -
  have lt: "(MInf :: score) < PInf" by simp
  from minimax_ab_sound [OF assms lt, of depth True player] obtain r v c c' where
    a: "minimax_ab g depth MInf PInf True player = Inr (Fin r, c, g)"
    and b: "minimax_basic g depth True player = Inr (Fin v, c', g)"
    and f: "fail_soft_ok MInf PInf (Fin v) (Fin r)" and e: "c = c'" by blast
  from f have "r = v" by (simp add: fail_soft_ok_def)
  with a b e show ?thesis by (simp add: get_best_move_def)
qed

theorem alpha_beta_same_result_witness:
  "wf_game low_pair_position
   \<and> get_best_move 2 True low_pair_position 2 = get_best_move 2 False low_pair_position 2
   \<and> get_best_move 2 False low_pair_position 2 = Inr (Some 1, low_pair_position)"
proof -
  have w: "wf_game low_pair_position" by code_simp
  have e: "get_best_move 2 False low_pair_position 2 = Inr (Some 1, low_pair_position)"
    by code_simp
  from alpha_beta_same_result [OF w, of 2 2] w e show ?thesis by blast
qed

section \<open>Properties of the tree search\<close>

lemma copy_game_id [simp]: "copy_game g = g"
  by (simp add: copy_game_def)

lemma same_shape_fields:
  assumes "same_shape t t'" and "j < length t"
  shows "game_state (t' ! j) = game_state (t ! j)" "move (t' ! j) = move (t ! j)"
    "parent (t' ! j) = parent (t ! j)" "player_who_moved (t' ! j) = player_who_moved (t ! j)"
    "children (t' ! j) = children (t ! j)" "untried_moves (t' ! j) = untried_moves (t ! j)"
proof -
  from assms have e: "(t' ! j)\<lparr>visits := 0, wins := 0\<rparr> = (t ! j)\<lparr>visits := 0, wins := 0\<rparr>"
    by (simp add: same_shape_def)
  show "game_state (t' ! j) = game_state (t ! j)"
    using arg_cong [OF e, of game_state] by simp
  show "move (t' ! j) = move (t ! j)"
    using arg_cong [OF e, of move] by simp
  show "parent (t' ! j) = parent (t ! j)"
    using arg_cong [OF e, of parent] by simp
  show "player_who_moved (t' ! j) = player_who_moved (t ! j)"
    using arg_cong [OF e, of player_who_moved] by simp
  show "children (t' ! j) = children (t ! j)"
    using arg_cong [OF e, of children] by simp
  show "untried_moves (t' ! j) = untried_moves (t ! j)"
    using arg_cong [OF e, of untried_moves] by simp
qed

lemma same_shape_refl: "same_shape t t"
  by (simp add: same_shape_def)

lemma same_shape_trans: "same_shape t t1 \<Longrightarrow> same_shape t1 t2 \<Longrightarrow> same_shape t t2"
  by (simp add: same_shape_def)

lemma same_shape_parents_ok:
  assumes "same_shape t t'" "parents_ok t"
  shows "parents_ok t'"
  unfolding parents_ok_def
proof (intro allI impI)
  fix i assume "i < length t'"
  then have i: "i < length t" using assms(1) by (simp add: same_shape_def)
  with assms(2) have "case parent (t ! i) of None \<Rightarrow> i = 0 | Some q \<Rightarrow> q < i"
    by (simp add: parents_ok_def)
  then show "case parent (t' ! i) of None \<Rightarrow> i = 0 | Some q \<Rightarrow> q < i"
    using same_shape_fields(3) [OF assms(1) i] by simp
qed

lemma ancestor_le:
  assumes "parents_ok t"
  shows "ancestor_or_self t a i \<Longrightarrow> i < length t \<Longrightarrow> a \<le> i"
proof (induction rule: ancestor_or_self.induct)
  case (self i)
  then show ?case by simp
next
  case (up i q a)
  from assms up.hyps(1) up.prems have "q < i" by (auto simp: parents_ok_def split: option.splits)
  with up show ?case by simp
qed

lemma ancestor_same_shape:
  assumes "same_shape t t'" "parents_ok t"
  shows "i < length t \<Longrightarrow> ancestor_or_self t' a i \<longleftrightarrow> ancestor_or_self t a i"
proof
  show "ancestor_or_self t a i" if "ancestor_or_self t' a i" "i < length t"
    using that
  proof (induction rule: ancestor_or_self.induct)
    case (self i)
    show ?case by (rule ancestor_or_self.self)
  next
    case (up i q a)
    then have p: "parent (t ! i) = Some q" using same_shape_fields(3) [OF assms(1)] by simp
    with assms(2) up.prems have "q < i" by (auto simp: parents_ok_def split: option.splits)
    with up p show ?case by (auto intro: ancestor_or_self.up)
  qed
  show "ancestor_or_self t' a i" if "ancestor_or_self t a i" "i < length t"
    using that
  proof (induction rule: ancestor_or_self.induct)
    case (self i)
    show ?case by (rule ancestor_or_self.self)
  next
    case (up i q a)
    then have p: "parent (t' ! i) = Some q" using same_shape_fields(3) [OF assms(1)] by simp
    from assms(2) up.hyps(1) up.prems have "q < i" by (auto simp: parents_ok_def split: option.splits)
    with up p show ?case by (auto intro: ancestor_or_self.up)
  qed
qed

lemma ancestor_cases:
  "ancestor_or_self t a i \<longleftrightarrow> a = i \<or> (\<exists>q. parent (t ! i) = Some q \<and> ancestor_or_self t a q)"
  by (auto elim: ancestor_or_self.cases intro: ancestor_or_self.intros)

lemma root_is_ancestor:
  assumes "parents_ok t"
  shows "i < length t \<Longrightarrow> ancestor_or_self t 0 i"
proof (induction i rule: less_induct)
  case (less i)
  show ?case
  proof (cases "parent (t ! i)")
    case None
    with assms less.prems have "i = 0" by (auto simp: parents_ok_def split: option.splits)
    then show ?thesis by (simp add: ancestor_or_self.self)
  next
    case (Some q)
    with assms less.prems have "q < i" by (auto simp: parents_ok_def split: option.splits)
    with less Some show ?thesis by (auto intro: ancestor_or_self.up)
  qed
qed

lemma ancestor_parent:
  "ancestor_or_self t j i \<Longrightarrow> parent (t ! j) = Some q \<Longrightarrow> ancestor_or_self t q i"
proof (induction rule: ancestor_or_self.induct)
  case (self i)
  then show ?case by (auto intro: ancestor_or_self.intros)
next
  case (up i q' a)
  then show ?case by (auto intro: ancestor_or_self.up)
qed

lemma backpropagate_visits:
  assumes "parents_ok t"
  shows "i < length t \<Longrightarrow>
     \<exists>t'. backpropagate t i r = Some t' \<and> same_shape t t'
        \<and> (\<forall>j < length t. visits (t' ! j) = visits (t ! j) + (if ancestor_or_self t j i then 1 else 0))"
  using assms
proof (induction i arbitrary: t rule: less_induct)
  case (less i)
  define n1 where "n1 = (t ! i)\<lparr>visits := visits (t ! i) + 1\<rparr>"
  define n2 where "n2 = (if Some r = player_who_moved n1 then n1\<lparr>wins := wins n1 + 1\<rparr>
                else if r = 3 then n1\<lparr>wins := wins n1 + 1 / 2\<rparr> else n1)"
  define t1 where "t1 = t[i := n2]"
  have v2: "visits n2 = visits (t ! i) + 1" and p2: "parent n2 = parent (t ! i)"
    and z2: "n2\<lparr>visits := 0, wins := 0\<rparr> = (t ! i)\<lparr>visits := 0, wins := 0\<rparr>"
    by (simp_all add: n2_def n1_def)
  have sh: "same_shape t t1"
    unfolding same_shape_def
  proof (intro conjI allI impI)
    show "length t1 = length t" by (simp add: t1_def)
    show "(t1 ! j)\<lparr>visits := 0, wins := 0\<rparr> = (t ! j)\<lparr>visits := 0, wins := 0\<rparr>"
      if "j < length t" for j
      using that by (cases "j = i") (simp_all add: t1_def z2)
  qed
  have vis1: "visits (t1 ! j) = visits (t ! j) + (if j = i then 1 else 0)" if "j < length t" for j
    using that v2 by (simp add: t1_def nth_list_update)
  have step: "backpropagate t i r = (case parent (t ! i) of None \<Rightarrow> Some t1
                                     | Some q \<Rightarrow> backpropagate t1 q r)"
    unfolding t1_def n2_def n1_def
    by (subst backpropagate.simps) (auto simp: Let_def split: option.splits)
  show ?case
  proof (cases "parent (t ! i)")
    case None
    then have "ancestor_or_self t j i \<longleftrightarrow> j = i" for j
      by (subst ancestor_cases) simp
    with step None sh vis1 show ?thesis by simp
  next
    case (Some q)
    with less.prems have qi: "q < i" by (auto simp: parents_ok_def split: option.splits)
    have ok1: "parents_ok t1" using same_shape_parents_ok [OF sh less.prems(2)] .
    have "q < length t1" using qi less.prems(1) by (simp add: t1_def)
    from less.IH [OF qi this ok1] obtain t' where
      b: "backpropagate t1 q r = Some t'" and s': "same_shape t1 t'"
      and v': "\<forall>j < length t1. visits (t' ! j) = visits (t1 ! j) + (if ancestor_or_self t1 j q then 1 else 0)"
      by blast
    have "visits (t' ! j) = visits (t ! j) + (if ancestor_or_self t j i then 1 else 0)"
      if j: "j < length t" for j
    proof -
      have a1: "ancestor_or_self t1 j q \<longleftrightarrow> ancestor_or_self t j q"
        using ancestor_same_shape [OF sh less.prems(2), of q j] qi less.prems(1) by simp
      have a2: "ancestor_or_self t j i \<longleftrightarrow> j = i \<or> ancestor_or_self t j q"
        by (subst ancestor_cases) (simp add: Some)
      have a3: "\<not> (j = i \<and> ancestor_or_self t j q)"
        using ancestor_le [OF less.prems(2), of j q] qi less.prems(1) by auto
      from v' j have "visits (t' ! j) = visits (t1 ! j) + (if ancestor_or_self t1 j q then 1 else 0)"
        by (simp add: t1_def)
      with vis1 [OF j] a1 a2 a3 show ?thesis by auto
    qed
    with step Some b same_shape_trans [OF sh s'] show ?thesis by simp
  qed
qed

lemma collect_Inr:
  assumes "\<And>x. x \<in> set xs \<Longrightarrow> \<exists>v. f x = Inr v"
  shows "\<exists>vs. collect (map f xs) = Inr vs \<and> length vs = length xs"
  using assms
proof (induction xs)
  case Nil
  then show ?case by simp
next
  case (Cons x xs)
  from Cons.prems [of x] obtain v where "f x = Inr v" by auto
  moreover from Cons.IH Cons.prems obtain vs where
    "collect (map f xs) = Inr vs" "length vs = length xs" by auto
  ultimately have "f x = Inr v" "collect (map f xs) = Inr vs" "length vs = length xs" .
  then show ?case by simp
qed

lemma fold_max_in_set: "fold max xs (x :: 'a :: linorder) \<in> set (x # xs)"
  by (induction xs arbitrary: x) (auto simp: max_def)

lemma random_choice_in: "xs \<noteq> [] \<Longrightarrow> random_choice rnd k xs \<in> set xs"
  by (simp add: random_choice_def)

lemma tree_ok_node:
  assumes "tree_ok g t" "i < length t"
  shows "\<forall>q. parent (t ! i) = Some q \<longrightarrow> visits (t ! i) \<le> visits (t ! q)"
    and "\<forall>c \<in> set (children (t ! i)). i < c \<and> c < length t"
    and "wf_game (game_state (t ! i))"
    and "set (untried_moves (t ! i)) \<subseteq> set (get_valid_moves (game_state (t ! i)))"
proof -
  from assms(1) have "\<forall>i < length t.
           (\<forall>q. parent (t ! i) = Some q \<longrightarrow> visits (t ! i) \<le> visits (t ! q))
         \<and> (\<forall>c \<in> set (children (t ! i)). i < c \<and> c < length t)
         \<and> wf_game (game_state (t ! i))
         \<and> set (untried_moves (t ! i)) \<subseteq> set (get_valid_moves (game_state (t ! i)))"
    unfolding tree_ok_def by (elim conjE)
  then have "i < length t \<longrightarrow>
           (\<forall>q. parent (t ! i) = Some q \<longrightarrow> visits (t ! i) \<le> visits (t ! q))
         \<and> (\<forall>c \<in> set (children (t ! i)). i < c \<and> c < length t)
         \<and> wf_game (game_state (t ! i))
         \<and> set (untried_moves (t ! i)) \<subseteq> set (get_valid_moves (game_state (t ! i)))"
    by (rule spec)
  from this assms(2) have a: "(\<forall>q. parent (t ! i) = Some q \<longrightarrow> visits (t ! i) \<le> visits (t ! q))
         \<and> (\<forall>c \<in> set (children (t ! i)). i < c \<and> c < length t)
         \<and> wf_game (game_state (t ! i))
         \<and> set (untried_moves (t ! i)) \<subseteq> set (get_valid_moves (game_state (t ! i)))"
    by (rule mp)
  from a show "\<forall>q. parent (t ! i) = Some q \<longrightarrow> visits (t ! i) \<le> visits (t ! q)" by (elim conjE)
  from a show "\<forall>c \<in> set (children (t ! i)). i < c \<and> c < length t" by (elim conjE)
  from a show "wf_game (game_state (t ! i))" by (elim conjE)
  from a show "set (untried_moves (t ! i)) \<subseteq> set (get_valid_moves (game_state (t ! i)))"
    by (elim conjE)
qed

lemma tree_ok_parents: "tree_ok g t \<Longrightarrow> parents_ok t"
  unfolding tree_ok_def by (elim conjE)

lemma tree_ok_child:
  assumes "tree_ok g t" "i < length t" "c \<in> set (children (t ! i))"
  shows "i < c" "c < length t"
  using tree_ok_node(2) [OF assms(1,2)] assms(3) by blast+

lemma parents_ok_nonroot:
  assumes "parents_ok t" "c < length t" "0 < c"
  shows "\<exists>q. parent (t ! c) = Some q \<and> q < c"
proof -
  from assms(1,2) have "case parent (t ! c) of None \<Rightarrow> c = 0 | Some q \<Rightarrow> q < c"
    unfolding parents_ok_def by blast
  with assms(3) show ?thesis by (cases "parent (t ! c)") simp_all
qed

lemma ucb1_score_Inr:
  assumes ok: "tree_ok g t" and i: "i < length t" and c: "c \<in> set (children (t ! i))"
  shows "\<exists>v. ucb1_score formula t (t ! c) = Inr v"
proof -
  from tree_ok_child [OF ok i c] have ic: "i < c" and cl: "c < length t" .
  from parents_ok_nonroot [OF tree_ok_parents [OF ok] cl] ic obtain q where
    q: "parent (t ! c) = Some q" by auto
  with tree_ok_node(1) [OF ok cl] have "visits (t ! c) \<le> visits (t ! q)" by blast
  with q show ?thesis by (simp add: ucb1_score_def)
qed

lemma best_children_nonempty:
  "length ys = length xs \<Longrightarrow> b \<in> set ys \<Longrightarrow>
     map fst (filter (\<lambda>(c, s). s = b) (zip xs ys)) \<noteq> []"
proof (induction xs ys rule: list_induct2')
  case (4 x xs y ys)
  then show ?case by (cases "y = b") simp_all
qed simp_all

lemma best_children_subset:
  "set (map fst (filter P (zip xs ys))) \<subseteq> set xs"
proof
  fix c assume "c \<in> set (map fst (filter P (zip xs ys)))"
  then obtain s where "(c, s) \<in> set (zip xs ys)" by auto
  then show "c \<in> set xs" by (rule set_zip_leftD)
qed

lemma select_best_child_ok:
  assumes ok: "tree_ok g t" and i: "i < length t"
  shows "(children (t ! i) = [] \<longrightarrow> select_best_child formula rnd t i k = Inr (None, k))
       \<and> (children (t ! i) \<noteq> [] \<longrightarrow>
            (\<exists>c. select_best_child formula rnd t i k = Inr (Some c, k + 1)
                   \<and> c \<in> set (children (t ! i))))"
proof (intro conjI impI)
  show "select_best_child formula rnd t i k = Inr (None, k)" if "children (t ! i) = []"
    using that by (simp add: select_best_child_def)
next
  assume ne: "children (t ! i) \<noteq> []"
  let ?cs = "children (t ! i)"
  have "\<exists>vs. collect (map (\<lambda>c. ucb1_score formula t (t ! c)) ?cs) = Inr vs
           \<and> length vs = length ?cs"
    by (rule collect_Inr) (rule ucb1_score_Inr [OF ok i])
  then obtain scores where s: "collect (map (\<lambda>c. ucb1_score formula t (t ! c)) ?cs) = Inr scores"
    and l: "length scores = length ?cs" by blast
  let ?best = "fold max (tl scores) (hd scores)"
  let ?bc = "map fst (filter (\<lambda>(c, s). s = ?best) (zip ?cs scores))"
  from l ne have sne: "scores \<noteq> []" by auto
  have "?best \<in> set (hd scores # tl scores)" by (rule fold_max_in_set)
  with sne have "?best \<in> set scores" by simp
  from best_children_nonempty [OF l this] have bne: "?bc \<noteq> []" .
  have e: "select_best_child formula rnd t i k = Inr (Some (random_choice rnd k ?bc), k + 1)"
    unfolding select_best_child_def using ne s by (simp add: Let_def)
  have "random_choice rnd k ?bc \<in> set ?bc" by (rule random_choice_in [OF bne])
  with best_children_subset [of "\<lambda>(c, s). s = ?best" ?cs scores]
  have "random_choice rnd k ?bc \<in> set ?cs" by (rule_tac subsetD)
  with e show "\<exists>c. select_best_child formula rnd t i k = Inr (Some c, k + 1) \<and> c \<in> set ?cs"
    by blast
qed

lemma select_ok:
  assumes ok: "tree_ok g t"
  shows "i < length t \<Longrightarrow>
     \<exists>nd k'. select formula rnd t i k = Some (Inr (nd, k')) \<and> nd < length t
        \<and> (i = 0 \<and> \<not> is_fully_expanded (t ! 0) \<longrightarrow> nd = 0)"
proof (induction "length t - i" arbitrary: i k rule: less_induct)
  case less
  show ?case
  proof (cases "\<not> is_terminal (t ! i) \<and> is_fully_expanded (t ! i)")
    case False
    then have "select formula rnd t i k = Some (Inr (i, k))"
      by (subst select.simps) auto
    with less.prems show ?thesis by simp
  next
    case True
    show ?thesis
    proof (cases "children (t ! i) = []")
      case e: True
      with select_best_child_ok [OF ok less.prems, of formula rnd k]
      have "select_best_child formula rnd t i k = Inr (None, k)" by simp
      with True have "select formula rnd t i k = Some (Inr (i, k))"
        by (subst select.simps) simp
      with less.prems True show ?thesis by simp
    next
      case ne: False
      with select_best_child_ok [OF ok less.prems, of formula rnd k] obtain c where
        c: "select_best_child formula rnd t i k = Inr (Some c, k + 1)"
        and cm: "c \<in> set (children (t ! i))" by blast
      from tree_ok_child [OF ok less.prems cm] have ic: "i < c" and cl: "c < length t" .
      then have "length t - c < length t - i" by simp
      from less.hyps [OF this cl, of "k + 1"] obtain nd k' where
        "select formula rnd t c (k + 1) = Some (Inr (nd, k'))" "nd < length t" by blast
      moreover have "select formula rnd t i k = select formula rnd t c (k + 1)"
        using True c by (subst select.simps) simp
      ultimately show ?thesis using True by auto
    qed
  qed
qed

lemma simulate_loop_ok:
  "wf_game g \<Longrightarrow> \<exists>res k'. simulate_loop rnd g p k = Inr (res, k')"
proof (induction rnd g p k rule: simulate_loop.induct)
  case (1 rnd g p k)
  show ?case
  proof (cases "get_game_state g = 0 \<and> length (get_valid_moves g) > 0")
    case False
    then show ?thesis by (subst simulate_loop.simps) auto
  next
    case True
    let ?mv = "random_choice rnd k (get_valid_moves g)"
    from True have "?mv \<in> set (get_valid_moves g)" by (simp add: random_choice_in)
    from simulate_move_valid [OF "1.prems" this, of p] obtain row g1 where
      s: "simulate_move g ?mv p = Inr (g1, (row, ?mv))" and w: "wf_game g1" by blast
    from "1.IH" [OF True refl refl s refl w] obtain res k' where
      "simulate_loop rnd g1 (3 - p) (k + 1) = Inr (res, k')" by blast
    with True s show ?thesis by (subst simulate_loop.simps) (simp add: Let_def)
  qed
qed

lemma expand_node_eq:
  assumes "i < length t" "untried_moves (t ! i) \<noteq> []"
    and "simulate_move (game_state (t ! i)) (last (untried_moves (t ! i))) (get_next_player (t ! i))
           = Inr (st, rc)"
  shows "expand_node t i = Inr (expanded t i st, Some (length t))"
proof -
  let ?n1 = "(t ! i)\<lparr>untried_moves := butlast (untried_moves (t ! i))\<rparr>"
  have a: "t[i := ?n1] ! i = ?n1" using assms(1) by simp
  have b: "get_next_player ?n1 = get_next_player (t ! i)" by (simp add: get_next_player_def)
  have c: "(t[i := ?n1] @ [x]) ! i = ?n1" for x using assms(1) by (simp add: nth_append)
  have d: "(t[i := ?n1] @ [x])[i := y] = t[i := y] @ [x]" for x y
    using assms(1) by (simp add: list_update_append)
  show ?thesis
    unfolding expand_node_def expanded_def
    using assms(2,3) by (simp add: Let_def is_fully_expanded_def a b c d)
qed

lemma expand_node_full:
  "untried_moves (t ! i) = [] \<Longrightarrow> expand_node t i = Inr (t, None)"
  by (simp add: expand_node_def is_fully_expanded_def)

lemma expanded_length: "length (expanded t i st) = Suc (length t)"
  by (simp add: expanded_def)

lemma expanded_new:
  "expanded t i st ! length t
     = Node st (Some (last (untried_moves (t ! i)))) (Some i) (Some (get_next_player (t ! i)))"
  by (simp add: expanded_def nth_append)

lemma expanded_old:
  assumes "i < length t" "j < length t"
  shows "parent (expanded t i st ! j) = parent (t ! j)"
    and "visits (expanded t i st ! j) = visits (t ! j)"
    and "game_state (expanded t i st ! j) = game_state (t ! j)"
    and "move (expanded t i st ! j) = move (t ! j)"
    and "children (expanded t i st ! j)
           = (if j = i then children (t ! i) @ [length t] else children (t ! j))"
    and "untried_moves (expanded t i st ! j)
           = (if j = i then butlast (untried_moves (t ! i)) else untried_moves (t ! j))"
  using assms by (simp_all add: expanded_def nth_append nth_list_update)

lemma Node_fields:
  "game_state (Node st mv par pwm) = st" "move (Node st mv par pwm) = mv"
  "parent (Node st mv par pwm) = par" "visits (Node st mv par pwm) = 0"
  "children (Node st mv par pwm) = []"
  "untried_moves (Node st mv par pwm) = get_valid_moves st"
  by (simp_all add: Node_def)

lemma tree_ok_root:
  assumes "tree_ok g t"
  shows "t \<noteq> []" "game_state (t ! 0) = g"
    "map Some (untried_moves (t ! 0)) @ rev (map (\<lambda>c. move (t ! c)) (children (t ! 0)))
       = map Some (get_valid_moves g)"
proof -
  from assms show "t \<noteq> []" unfolding tree_ok_def by (elim conjE)
  from assms show "game_state (t ! 0) = g" unfolding tree_ok_def by (elim conjE)
  from assms show "map Some (untried_moves (t ! 0)) @ rev (map (\<lambda>c. move (t ! c)) (children (t ! 0)))
       = map Some (get_valid_moves g)" unfolding tree_ok_def by (elim conjE)
qed

lemma tree_okI:
  assumes "t \<noteq> []" "game_state (t ! 0) = g" "parents_ok t"
    and "\<And>i q. i < length t \<Longrightarrow> parent (t ! i) = Some q \<Longrightarrow> visits (t ! i) \<le> visits (t ! q)"
    and "\<And>i c. i < length t \<Longrightarrow> c \<in> set (children (t ! i)) \<Longrightarrow> i < c \<and> c < length t"
    and "\<And>i. i < length t \<Longrightarrow> wf_game (game_state (t ! i))"
    and "\<And>i. i < length t \<Longrightarrow>
           set (untried_moves (t ! i)) \<subseteq> set (get_valid_moves (game_state (t ! i)))"
    and "map Some (untried_moves (t ! 0)) @ rev (map (\<lambda>c. move (t ! c)) (children (t ! 0)))
           = map Some (get_valid_moves g)"
  shows "tree_ok g t"
  unfolding tree_ok_def
  using assms by (intro conjI allI impI ballI) blast+

lemma parents_ok_parent_less:
  assumes "parents_ok t" "j < length t" "parent (t ! j) = Some q"
  shows "q < j"
proof -
  from assms(1,2) have "case parent (t ! j) of None \<Rightarrow> j = 0 | Some q \<Rightarrow> q < j"
    unfolding parents_ok_def by blast
  with assms(3) show ?thesis by simp
qed

lemma parents_ok_root:
  assumes "parents_ok t" "t \<noteq> []"
  shows "parent (t ! 0) = None"
proof (cases "parent (t ! 0)")
  case (Some q)
  with parents_ok_parent_less [OF assms(1) _ Some] assms(2) show ?thesis by simp
qed simp

lemma tree_ok_expanded:
  assumes ok: "tree_ok g t" and i: "i < length t" and u: "untried_moves (t ! i) \<noteq> []"
    and wf: "wf_game st"
  shows "tree_ok g (expanded t i st)"
proof (rule tree_okI)
  let ?t = "expanded t i st"
  note po = tree_ok_parents [OF ok]
  have len: "length ?t = Suc (length t)" by (rule expanded_length)
  have cases: "j < length t \<or> j = length t" if "j < length ?t" for j
    using that len by auto
  from tree_ok_root(1) [OF ok] have t0: "0 < length t" by simp
  show "?t \<noteq> []" using len by auto
  show "game_state (?t ! 0) = g"
    using expanded_old(3) [OF i t0] tree_ok_root(2) [OF ok] by simp
  show "parents_ok ?t"
    unfolding parents_ok_def
  proof (intro allI impI)
    fix j assume "j < length ?t"
    from cases [OF this] show "case parent (?t ! j) of None \<Rightarrow> j = 0 | Some q \<Rightarrow> q < j"
    proof
      assume j: "j < length t"
      with po have "case parent (t ! j) of None \<Rightarrow> j = 0 | Some q \<Rightarrow> q < j"
        unfolding parents_ok_def by blast
      then show ?thesis using expanded_old(1) [OF i j] by simp
    next
      assume "j = length t"
      then show ?thesis using i by (simp add: expanded_new Node_fields)
    qed
  qed
  show "visits (?t ! j) \<le> visits (?t ! q)" if "j < length ?t" "parent (?t ! j) = Some q" for j q
    using cases [OF that(1)]
  proof
    assume j: "j < length t"
    with that(2) have p: "parent (t ! j) = Some q" using expanded_old(1) [OF i j] by simp
    from parents_ok_parent_less [OF po j p] j have q: "q < length t" by simp
    from tree_ok_node(1) [OF ok j] p have "visits (t ! j) \<le> visits (t ! q)" by blast
    then show ?thesis using expanded_old(2) [OF i j] expanded_old(2) [OF i q] by simp
  next
    assume "j = length t"
    then show ?thesis by (simp add: expanded_new Node_fields)
  qed
  show "j < c \<and> c < length ?t" if "j < length ?t" "c \<in> set (children (?t ! j))" for j c
    using cases [OF that(1)]
  proof
    assume j: "j < length t"
    show ?thesis
    proof (cases "c \<in> set (children (t ! j))")
      case True
      from tree_ok_child [OF ok j True] have "j < c" "c < length t" .
      with len show ?thesis by simp
    next
      case False
      with that(2) expanded_old(5) [OF i j] have "j = i \<and> c = length t"
        by (auto split: if_splits)
      with i len show ?thesis by simp
    qed
  next
    assume "j = length t"
    with that(2) show ?thesis by (simp add: expanded_new Node_fields)
  qed
  show "wf_game (game_state (?t ! j))" if "j < length ?t" for j
    using cases [OF that]
  proof
    assume j: "j < length t"
    then show ?thesis using expanded_old(3) [OF i j] tree_ok_node(3) [OF ok j] by simp
  next
    assume "j = length t"
    then show ?thesis using wf by (simp add: expanded_new Node_fields)
  qed
  show "set (untried_moves (?t ! j)) \<subseteq> set (get_valid_moves (game_state (?t ! j)))"
    if "j < length ?t" for j
    using cases [OF that]
  proof
    assume j: "j < length t"
    have "set (butlast (untried_moves (t ! i))) \<subseteq> set (untried_moves (t ! i))"
      by (auto dest: in_set_butlastD)
    then show ?thesis
      using expanded_old(3,6) [OF i j] tree_ok_node(4) [OF ok j] by (auto split: if_splits)
  next
    assume "j = length t"
    then show ?thesis by (simp add: expanded_new Node_fields)
  qed
  show "map Some (untried_moves (?t ! 0)) @ rev (map (\<lambda>c. move (?t ! c)) (children (?t ! 0)))
           = map Some (get_valid_moves g)"
  proof -
    have old: "map (\<lambda>c. move (?t ! c)) (children (t ! 0)) = map (\<lambda>c. move (t ! c)) (children (t ! 0))"
    proof (rule map_cong [OF refl])
      fix c assume "c \<in> set (children (t ! 0))"
      from tree_ok_child(2) [OF ok t0 this] show "move (?t ! c) = move (t ! c)"
        using expanded_old(4) [OF i] by simp
    qed
    show ?thesis
    proof (cases "i = 0")
      case False
      then have c0: "children (?t ! 0) = children (t ! 0)"
        and u0: "untried_moves (?t ! 0) = untried_moves (t ! 0)"
        using expanded_old(5,6) [OF i t0] by simp_all
      show ?thesis unfolding c0 u0 old by (rule tree_ok_root(3) [OF ok])
    next
      case True
      then have c0: "children (?t ! 0) = children (t ! 0) @ [length t]"
        and u0: "untried_moves (?t ! 0) = butlast (untried_moves (t ! 0))"
        using expanded_old(5,6) [OF i t0] by simp_all
      have e: "map Some (butlast (untried_moves (t ! 0))) @ [Some (last (untried_moves (t ! 0)))]
              = map Some (untried_moves (t ! 0))"
      proof -
        have "butlast (untried_moves (t ! 0)) @ [last (untried_moves (t ! 0))] = untried_moves (t ! 0)"
          using u True by simp
        then have "map Some (butlast (untried_moves (t ! 0)) @ [last (untried_moves (t ! 0))])
                     = map Some (untried_moves (t ! 0))" by (rule arg_cong)
        then show ?thesis by (simp only: map_append list.map)
      qed
      have m: "move (?t ! length t) = Some (last (untried_moves (t ! 0)))"
        using True by (simp add: expanded_new Node_fields)
      have "map Some (untried_moves (?t ! 0)) @ rev (map (\<lambda>c. move (?t ! c)) (children (?t ! 0)))
          = (map Some (butlast (untried_moves (t ! 0))) @ [Some (last (untried_moves (t ! 0)))])
              @ rev (map (\<lambda>c. move (?t ! c)) (children (t ! 0)))"
        unfolding c0 u0 by (simp add: m)
      also have "\<dots> = map Some (untried_moves (t ! 0))
              @ rev (map (\<lambda>c. move (t ! c)) (children (t ! 0)))"
        unfolding e old ..
      also have "\<dots> = map Some (get_valid_moves g)" by (rule tree_ok_root(3) [OF ok])
      finally show ?thesis .
    qed
  qed
qed

lemma tree_ok_backprop:
  assumes ok: "tree_ok g t" and i: "i < length t" and sh: "same_shape t t'"
    and vis: "\<forall>j < length t. visits (t' ! j) = visits (t ! j) + (if ancestor_or_self t j i then 1 else 0)"
  shows "tree_ok g t'"
proof (rule tree_okI)
  note po = tree_ok_parents [OF ok]
  from sh have len: "length t' = length t" by (simp add: same_shape_def)
  from tree_ok_root(1) [OF ok] have t0: "0 < length t" by simp
  show "t' \<noteq> []" using len t0 by auto
  show "game_state (t' ! 0) = g"
    using same_shape_fields(1) [OF sh t0] tree_ok_root(2) [OF ok] by simp
  show "parents_ok t'" by (rule same_shape_parents_ok [OF sh po])
  show "visits (t' ! j) \<le> visits (t' ! q)" if "j < length t'" "parent (t' ! j) = Some q" for j q
  proof -
    from that(1) len have j: "j < length t" by simp
    with that(2) have p: "parent (t ! j) = Some q" using same_shape_fields(3) [OF sh j] by simp
    from parents_ok_parent_less [OF po j p] j have q: "q < length t" by simp
    from tree_ok_node(1) [OF ok j] p have le: "visits (t ! j) \<le> visits (t ! q)" by blast
    have "ancestor_or_self t j i \<Longrightarrow> ancestor_or_self t q i"
      by (rule ancestor_parent [OF _ p])
    with le vis j q show ?thesis by auto
  qed
  show "j < c \<and> c < length t'" if "j < length t'" "c \<in> set (children (t' ! j))" for j c
  proof -
    from that(1) len have j: "j < length t" by simp
    with that(2) have "c \<in> set (children (t ! j))" using same_shape_fields(5) [OF sh j] by simp
    from tree_ok_child [OF ok j this] len show ?thesis by simp
  qed
  show "wf_game (game_state (t' ! j))" if "j < length t'" for j
  proof -
    from that len have j: "j < length t" by simp
    then show ?thesis using same_shape_fields(1) [OF sh j] tree_ok_node(3) [OF ok j] by simp
  qed
  show "set (untried_moves (t' ! j)) \<subseteq> set (get_valid_moves (game_state (t' ! j)))"
    if "j < length t'" for j
  proof -
    from that len have j: "j < length t" by simp
    then show ?thesis
      using same_shape_fields(1,6) [OF sh j] tree_ok_node(4) [OF ok j] by simp
  qed
  show "map Some (untried_moves (t' ! 0)) @ rev (map (\<lambda>c. move (t' ! c)) (children (t' ! 0)))
           = map Some (get_valid_moves g)"
  proof -
    have c0: "children (t' ! 0) = children (t ! 0)"
      and u0: "untried_moves (t' ! 0) = untried_moves (t ! 0)"
      using same_shape_fields(5,6) [OF sh t0] by simp_all
    have old: "map (\<lambda>c. move (t' ! c)) (children (t ! 0)) = map (\<lambda>c. move (t ! c)) (children (t ! 0))"
    proof (rule map_cong [OF refl])
      fix c assume "c \<in> set (children (t ! 0))"
      from tree_ok_child(2) [OF ok t0 this] show "move (t' ! c) = move (t ! c)"
        using same_shape_fields(2) [OF sh] by simp
    qed
    show ?thesis unfolding c0 u0 old by (rule tree_ok_root(3) [OF ok])
  qed
qed

lemma simulate_ok:
  assumes "tree_ok g t" "i < length t"
  shows "\<exists>res k'. simulate rnd (t ! i) k = Inr (res, k')"
  unfolding simulate_def copy_game_id
  by (rule simulate_loop_ok) (rule tree_ok_node(3) [OF assms])

lemma root_has_children:
  assumes ok: "tree_ok g t" and u: "untried_moves (t ! 0) = []" and vm: "get_valid_moves g \<noteq> []"
  shows "children (t ! 0) \<noteq> []"
proof
  assume "children (t ! 0) = []"
  with tree_ok_root(3) [OF ok] u have "map Some (get_valid_moves g) = []" by simp
  with vm show False by simp
qed

lemma expansion_step:
  assumes ok: "tree_ok g t" and nd: "nd < length t"
  shows "\<exists>t1 nd1.
      (if \<not> is_terminal (t ! nd)
       then (case expand_node t nd of
               Inl e \<Rightarrow> Inl e
             | Inr (t1, None) \<Rightarrow> Inr (t1, nd)
             | Inr (t1, Some expanded_node) \<Rightarrow> Inr (t1, expanded_node))
       else Inr (t, nd)) = Inr (t1, nd1)
      \<and> tree_ok g t1 \<and> nd1 < length t1 \<and> visits (t1 ! 0) = visits (t ! 0)
      \<and> (children (t ! 0) \<noteq> [] \<longrightarrow> children (t1 ! 0) \<noteq> [])
      \<and> (nd = 0 \<and> \<not> is_terminal (t ! 0) \<and> untried_moves (t ! 0) \<noteq> [] \<longrightarrow> children (t1 ! 0) \<noteq> [])"
proof (cases "is_terminal (t ! nd) \<or> untried_moves (t ! nd) = []")
  case True
  then have "(if \<not> is_terminal (t ! nd)
       then (case expand_node t nd of
               Inl e \<Rightarrow> Inl e
             | Inr (t1, None) \<Rightarrow> Inr (t1, nd)
             | Inr (t1, Some expanded_node) \<Rightarrow> Inr (t1, expanded_node))
       else Inr (t, nd)) = Inr (t, nd)"
    by (auto simp: expand_node_full)
  with ok nd True show ?thesis by auto
next
  case False
  then have nt: "\<not> is_terminal (t ! nd)" and u: "untried_moves (t ! nd) \<noteq> []" by simp_all
  let ?mv = "last (untried_moves (t ! nd))"
  from u have "?mv \<in> set (untried_moves (t ! nd))" by simp
  with tree_ok_node(4) [OF ok nd] have v: "?mv \<in> set (get_valid_moves (game_state (t ! nd)))"
    by blast
  from simulate_move_valid [OF tree_ok_node(3) [OF ok nd] v, of "get_next_player (t ! nd)"]
  obtain row st where
    s: "simulate_move (game_state (t ! nd)) ?mv (get_next_player (t ! nd)) = Inr (st, (row, ?mv))"
    and w: "wf_game st" by blast
  from expand_node_eq [OF nd u s] have e: "expand_node t nd = Inr (expanded t nd st, Some (length t))" .
  from tree_ok_root(1) [OF ok] have t0: "0 < length t" by simp
  have "(if \<not> is_terminal (t ! nd)
       then (case expand_node t nd of
               Inl e \<Rightarrow> Inl e
             | Inr (t1, None) \<Rightarrow> Inr (t1, nd)
             | Inr (t1, Some expanded_node) \<Rightarrow> Inr (t1, expanded_node))
       else Inr (t, nd)) = Inr (expanded t nd st, length t)"
    using nt e by simp
  moreover have "tree_ok g (expanded t nd st)" by (rule tree_ok_expanded [OF ok nd u w])
  moreover have "length t < length (expanded t nd st)" by (simp add: expanded_length)
  moreover have "visits (expanded t nd st ! 0) = visits (t ! 0)" by (rule expanded_old(2) [OF nd t0])
  moreover have "children (expanded t nd st ! 0) \<noteq> []"
    if "children (t ! 0) \<noteq> [] \<or> nd = 0"
    using that expanded_old(5) [OF nd t0, of st] by (auto split: if_splits)
  ultimately show ?thesis by blast
qed

lemma iteration_ok:
  assumes ok: "tree_ok g t"
  shows "\<exists>t' k'. iteration formula rnd t k = Some (Inr (t', k')) \<and> tree_ok g t'
            \<and> visits (t' ! 0) = Suc (visits (t ! 0))
            \<and> (get_game_state g = 0 \<and> get_valid_moves g \<noteq> [] \<longrightarrow> children (t' ! 0) \<noteq> [])"
proof -
  from tree_ok_root(1) [OF ok] have t0: "0 < length t" by simp
  from select_ok [OF ok t0, of formula rnd k] obtain nd k1 where
    s: "select formula rnd t 0 k = Some (Inr (nd, k1))" and nd: "nd < length t"
    and r: "\<not> is_fully_expanded (t ! 0) \<longrightarrow> nd = 0" by blast
  from expansion_step [OF ok nd] obtain t1 nd1 where
    e: "(if \<not> is_terminal (t ! nd)
       then (case expand_node t nd of
               Inl e \<Rightarrow> Inl e
             | Inr (t1, None) \<Rightarrow> Inr (t1, nd)
             | Inr (t1, Some expanded_node) \<Rightarrow> Inr (t1, expanded_node))
       else Inr (t, nd)) = Inr (t1, nd1)"
    and ok1: "tree_ok g t1" and nd1: "nd1 < length t1" and v1: "visits (t1 ! 0) = visits (t ! 0)"
    and c1: "children (t ! 0) \<noteq> [] \<longrightarrow> children (t1 ! 0) \<noteq> []"
    and c2: "nd = 0 \<and> \<not> is_terminal (t ! 0) \<and> untried_moves (t ! 0) \<noteq> [] \<longrightarrow> children (t1 ! 0) \<noteq> []"
    by blast
  from simulate_ok [OF ok1 nd1, of rnd k1] obtain res k2 where
    m: "simulate rnd (t1 ! nd1) k1 = Inr (res, k2)" by blast
  note po1 = tree_ok_parents [OF ok1]
  from backpropagate_visits [OF po1 nd1, of res] obtain t2 where
    b: "backpropagate t1 nd1 res = Some t2" and sh: "same_shape t1 t2"
    and vis: "\<forall>j < length t1. visits (t2 ! j) = visits (t1 ! j) + (if ancestor_or_self t1 j nd1 then 1 else 0)"
    by blast
  from tree_ok_root(1) [OF ok1] have t10: "0 < length t1" by simp
  have it: "iteration formula rnd t k = Some (Inr (t2, k2))"
    unfolding iteration_def s using e m b by simp
  have ok2: "tree_ok g t2" by (rule tree_ok_backprop [OF ok1 nd1 sh vis])
  have "ancestor_or_self t1 0 nd1" by (rule root_is_ancestor [OF po1 nd1])
  with vis t10 v1 have v2: "visits (t2 ! 0) = Suc (visits (t ! 0))" by simp
  have "children (t2 ! 0) \<noteq> []" if on: "get_game_state g = 0" and vm: "get_valid_moves g \<noteq> []"
  proof -
    from on tree_ok_root(2) [OF ok] have nt: "\<not> is_terminal (t ! 0)" by (simp add: is_terminal_def)
    have "children (t1 ! 0) \<noteq> []"
    proof (cases "untried_moves (t ! 0) = []")
      case True
      from root_has_children [OF ok True vm] c1 show ?thesis by simp
    next
      case False
      then have "\<not> is_fully_expanded (t ! 0)" by (simp add: is_fully_expanded_def)
      with r have "nd = 0" by simp
      with nt False c2 show ?thesis by simp
    qed
    then show ?thesis using same_shape_fields(5) [OF sh t10] by simp
  qed
  with it ok2 v2 show ?thesis by blast
qed

lemma run_simulations_ok:
  assumes "tree_ok g t"
  shows "\<exists>t' k'. run_simulations formula rnd n t k = Some (Inr (t', k')) \<and> tree_ok g t'
            \<and> visits (t' ! 0) = visits (t ! 0) + n
            \<and> (0 < n \<and> get_game_state g = 0 \<and> get_valid_moves g \<noteq> [] \<longrightarrow> children (t' ! 0) \<noteq> [])"
  using assms
proof (induction n arbitrary: t k)
  case 0
  then show ?case by simp
next
  case (Suc n)
  from iteration_ok [OF Suc.prems, of formula rnd k] obtain t1 k1 where
    i: "iteration formula rnd t k = Some (Inr (t1, k1))" and ok1: "tree_ok g t1"
    and v1: "visits (t1 ! 0) = Suc (visits (t ! 0))"
    and c1: "get_game_state g = 0 \<and> get_valid_moves g \<noteq> [] \<longrightarrow> children (t1 ! 0) \<noteq> []"
    by blast
  from Suc.IH [OF ok1, of k1] obtain t2 k2 where
    r: "run_simulations formula rnd n t1 k1 = Some (Inr (t2, k2))" and ok2: "tree_ok g t2"
    and v2: "visits (t2 ! 0) = visits (t1 ! 0) + n"
    and c2: "0 < n \<and> get_game_state g = 0 \<and> get_valid_moves g \<noteq> [] \<longrightarrow> children (t2 ! 0) \<noteq> []"
    by blast
  have "children (t2 ! 0) \<noteq> []" if "get_game_state g = 0 \<and> get_valid_moves g \<noteq> []"
  proof (cases n)
    case 0
    with r have "t2 = t1" by simp
    with c1 that show ?thesis by simp
  next
    case (Suc m)
    with c2 that show ?thesis by simp
  qed
  with i r ok2 v1 v2 show ?case by simp
qed

lemma initial_tree_ok:
  assumes "wf_game g"
  shows "tree_ok g [Node g None None pwm]"
  by (rule tree_okI) (simp_all add: Node_def parents_ok_def assms)

lemma max_by_visits_first:
  "\<exists>before after. b # cs = before @ max_by_visits t b cs # after
      \<and> (\<forall>c \<in> set before. visits (t ! c) < visits (t ! max_by_visits t b cs))
      \<and> (\<forall>c \<in> set after. visits (t ! c) \<le> visits (t ! max_by_visits t b cs))"
proof (induction cs arbitrary: b)
  case Nil
  show ?case by (rule exI [of _ "[]"], rule exI [of _ "[]"]) simp
next
  case (Cons c cs)
  show ?case
  proof (cases "visits (t ! c) > visits (t ! b)")
    case True
    let ?r = "max_by_visits t c cs"
    have r: "max_by_visits t b (c # cs) = ?r" using True by simp
    from Cons.IH [of c] obtain before after where
      e: "c # cs = before @ ?r # after"
      and lt: "\<forall>x \<in> set before. visits (t ! x) < visits (t ! ?r)"
      and le: "\<forall>x \<in> set after. visits (t ! x) \<le> visits (t ! ?r)" by blast
    have "visits (t ! c) \<le> visits (t ! ?r)"
    proof (cases before)
      case Nil
      from e [unfolded Nil append_Nil]
      have "c = max_by_visits t c cs" by (rule list.inject [THEN iffD1, THEN conjunct1])
      then have "visits (t ! c) = visits (t ! ?r)" by (rule arg_cong)
      then show ?thesis by (rule eq_imp_le)
    next
      case (Cons x xs)
      with e have "c \<in> set before" by simp
      with lt show ?thesis by (simp add: less_imp_le)
    qed
    with True have br: "visits (t ! b) < visits (t ! ?r)" by simp
    show ?thesis
      unfolding r
    proof (intro exI conjI)
      show "b # c # cs = (b # before) @ ?r # after" using e by simp
      show "\<forall>x \<in> set (b # before). visits (t ! x) < visits (t ! ?r)" using lt br by simp
      show "\<forall>x \<in> set after. visits (t ! x) \<le> visits (t ! ?r)" by (rule le)
    qed
  next
    case False
    let ?r = "max_by_visits t b cs"
    have r: "max_by_visits t b (c # cs) = ?r" using False by simp
    from Cons.IH [of b] obtain before after where
      e: "b # cs = before @ ?r # after"
      and lt: "\<forall>x \<in> set before. visits (t ! x) < visits (t ! ?r)"
      and le: "\<forall>x \<in> set after. visits (t ! x) \<le> visits (t ! ?r)" by blast
    show ?thesis
    proof (cases before)
      case Nil
      from e [unfolded Nil append_Nil]
      have ba: "b = ?r \<and> cs = after" by (rule list.inject [THEN iffD1])
      then have vb: "visits (t ! b) = visits (t ! ?r)" by (metis)
      from ba have a: "cs = after" by (rule conjunct2)
      show ?thesis
        unfolding r
      proof (intro exI conjI)
        from ba have "?r = b" by (metis)
        then show "b # c # cs = [] @ ?r # (c # cs)" by (simp only: append_Nil)
        show "\<forall>x \<in> set []. visits (t ! x) < visits (t ! ?r)" by simp
        show "\<forall>x \<in> set (c # cs). visits (t ! x) \<le> visits (t ! ?r)"
          using False le vb unfolding a by simp
      qed
    next
      case (Cons x xs)
      with e have x: "x = b" and cs: "cs = xs @ ?r # after" by auto
      from lt Cons x have br: "visits (t ! b) < visits (t ! ?r)" by simp
      with False have cr: "visits (t ! c) < visits (t ! ?r)" by simp
      show ?thesis
        unfolding r
      proof (intro exI conjI)
        show "b # c # cs = (b # c # xs) @ ?r # after" using cs by simp
        show "\<forall>y \<in> set (b # c # xs). visits (t ! y) < visits (t ! ?r)"
          using lt Cons x cr by simp
        show "\<forall>x \<in> set after. visits (t ! x) \<le> visits (t ! ?r)" by (rule le)
      qed
    qed
  qed
qed

lemma children_moves:
  assumes "tree_ok g t"
  shows "map (\<lambda>c. move (t ! c)) (children (t ! 0))
           = map Some (rev (drop (length (untried_moves (t ! 0))) (get_valid_moves g)))"
proof -
  let ?u = "untried_moves (t ! 0)" and ?ms = "map (\<lambda>c. move (t ! c)) (children (t ! 0))"
  from tree_ok_root(3) [OF assms]
  have "drop (length (map Some ?u)) (map Some ?u @ rev ?ms)
          = drop (length (map Some ?u)) (map Some (get_valid_moves g))" by simp
  then have "rev ?ms = map Some (drop (length ?u) (get_valid_moves g))"
    by (simp add: drop_map)
  then have "rev (rev ?ms) = rev (map Some (drop (length ?u) (get_valid_moves g)))" by simp
  then show ?thesis by (simp add: rev_map)
qed

lemma sorted_valid_moves_rev_drop:
  "sorted_wrt (>) (rev (drop n (get_valid_moves g)))"
proof -
  have "sorted_wrt (<) (drop n (get_valid_moves g))"
    by (rule sorted_wrt_drop) (rule sorted_valid_moves)
  then show ?thesis by (simp add: sorted_wrt_rev)
qed

lemma choose_move_best:
  assumes ok: "tree_ok g t" and ne: "children (t ! 0) \<noteq> []"
  shows "\<exists>best before after col.
      choose_move rnd t k = Some col \<and> move (t ! best) = Some col
      \<and> col \<in> set (get_valid_moves g)
      \<and> children (t ! 0) = before @ best # after
      \<and> (\<forall>c \<in> set before. visits (t ! c) < visits (t ! best))
      \<and> (\<forall>c \<in> set after. visits (t ! c) \<le> visits (t ! best))
      \<and> (\<forall>c \<in> set after. \<exists>col'. move (t ! c) = Some col' \<and> col' < col)"
proof -
  let ?cs = "children (t ! 0)"
  let ?best = "max_by_visits t (hd ?cs) (tl ?cs)"
  let ?ds = "rev (drop (length (untried_moves (t ! 0))) (get_valid_moves g))"
  from max_by_visits_first [of "hd ?cs" "tl ?cs" t] ne obtain before after where
    e: "?cs = before @ ?best # after"
    and lt: "\<forall>c \<in> set before. visits (t ! c) < visits (t ! ?best)"
    and le: "\<forall>c \<in> set after. visits (t ! c) \<le> visits (t ! ?best)" by auto
  have m: "map (\<lambda>c. move (t ! c)) (before @ ?best # after) = map Some ?ds"
    using children_moves [OF ok] e by simp
  define db where "db = take (length before) ?ds"
  define da where "da = drop (Suc (length before)) ?ds"
  have len: "length ?ds = length before + Suc (length after)"
    using arg_cong [OF m, of length] by simp
  then have lb: "length before < length ?ds" by simp
  define col where "col = ?ds ! length before"
  have split: "?ds = db @ col # da"
    unfolding db_def da_def col_def using lb by (simp add: id_take_nth_drop [symmetric])
  have mb: "move (t ! ?best) = Some col"
    using arg_cong [OF m, of "\<lambda>xs. xs ! length before"] lb
    by (simp add: nth_append col_def)
  have ma: "map (\<lambda>c. move (t ! c)) after = map Some da"
    using arg_cong [OF m, of "drop (Suc (length before))"] by (simp add: da_def drop_map)
  have srt: "sorted_wrt (>) (db @ col # da)"
    using sorted_valid_moves_rev_drop [of "length (untried_moves (t ! 0))" g] split by simp
  then have small: "\<forall>x \<in> set da. x < col" by (simp add: sorted_wrt_append)
  have after_cols: "\<exists>col'. move (t ! c) = Some col' \<and> col' < col" if "c \<in> set after" for c
  proof -
    from that have "move (t ! c) \<in> set (map (\<lambda>c. move (t ! c)) after)" by simp
    with ma have "move (t ! c) \<in> Some ` set da" by simp
    with small show ?thesis by auto
  qed
  have "col \<in> set ?ds" using split by (metis in_set_conv_decomp)
  then have cv: "col \<in> set (get_valid_moves g)" by (auto dest: in_set_dropD)
  have "choose_move rnd t k = Some col"
    using ne mb by (simp add: choose_move_def Let_def)
  with mb cv e lt le after_cols show ?thesis by blast
qed

lemma choose_move_valid:
  assumes ok: "tree_ok g t" and vm: "get_valid_moves g \<noteq> []"
  shows "\<exists>col. choose_move rnd t k = Some col \<and> col \<in> set (get_valid_moves g)"
proof (cases "children (t ! 0) = []")
  case True
  then have "choose_move rnd t k = Some (random_choice rnd k (get_valid_moves g))"
    using vm tree_ok_root(2) [OF ok] by (simp add: choose_move_def Let_def)
  with random_choice_in [OF vm] show ?thesis by simp
next
  case False
  from choose_move_best [OF ok False, of rnd k] show ?thesis by blast
qed

section \<open>The moves the engines return\<close>

text \<open>
  Claim C2, as the code has it. The claim says that \<open>get_best_move\<close> returns a legal
  column for any configured depth. With depth 0 both searches return at the test
  \<open>depth == 0\<close> with \<open>None\<close> as the column, also on the empty board, which is Ongoing
  and has seven legal columns.
\<close>

theorem engines_return_none_at_depth_zero:
  "get_game_state (init_game 6 7) = 0 \<and> get_valid_moves (init_game 6 7) \<noteq> []
   \<and> get_best_move 0 True (init_game 6 7) 1 = Inr (None, init_game 6 7)
   \<and> get_best_move 0 False (init_game 6 7) 1 = Inr (None, init_game 6 7)"
  by code_simp

text \<open>
  Claim C2, amended. For every well-shaped Ongoing game with at least one legal column:
  \<open>get_best_move\<close>, with or without pruning and for every depth of at least 1, returns
  a column of \<open>get_valid_moves\<close> (never \<open>None\<close>) and leaves the game as it was, while
  with depth 0 it returns \<open>None\<close> (third part of the statement); and
  \<open>get_move\<close> of the tree search, for every simulation budget (0 included), every
  outcome of its random choices and every value of the UCB1 formula, runs to its end
  without exception and returns a column of \<open>get_valid_moves\<close>.
\<close>

theorem engines_return_valid_column:
  assumes "wf_game g" "get_game_state g = 0" "get_valid_moves g \<noteq> []" "0 < depth"
  shows "(\<exists>c. get_best_move depth use_alpha_beta g player = Inr (Some c, g)
              \<and> c \<in> set (get_valid_moves g))
       \<and> (\<exists>c. get_move formula rnd simulations g player k = Some (Inr (Some c))
              \<and> c \<in> set (get_valid_moves g))
       \<and> get_best_move 0 use_alpha_beta g player = Inr (None, g)"
proof (intro conjI)
  have lt: "(MInf :: score) < PInf" by simp
  from minimax_ab_sound [OF assms(1) lt, of depth True player] assms(2,3,4)
  obtain r v c c' where
    a: "minimax_ab g depth MInf PInf True player = Inr (Fin r, Some c, g)"
    and b: "minimax_basic g depth True player = Inr (Fin v, Some c', g)"
    and m: "c \<in> set (get_valid_moves g)" "c' \<in> set (get_valid_moves g)"
    by auto
  show "\<exists>c. get_best_move depth use_alpha_beta g player = Inr (Some c, g)
              \<and> c \<in> set (get_valid_moves g)"
    using a b m by (cases use_alpha_beta) (simp_all add: get_best_move_def)
next
  have ok: "tree_ok g [Node g None None (Some (3 - player))]"
    by (rule initial_tree_ok [OF assms(1)])
  from run_simulations_ok [OF ok, of formula rnd simulations k] obtain t k' where
    r: "run_simulations formula rnd simulations [Node g None None (Some (3 - player))] k
          = Some (Inr (t, k'))" and ok': "tree_ok g t" by blast
  from choose_move_valid [OF ok' assms(3), of rnd k'] obtain col where
    "choose_move rnd t k' = Some col" "col \<in> set (get_valid_moves g)" by blast
  with r show "\<exists>c. get_move formula rnd simulations g player k = Some (Inr (Some c))
              \<and> c \<in> set (get_valid_moves g)"
    by (simp add: get_move_def)
next
  have "minimax_ab g 0 MInf PInf True player = Inr (Fin (evaluate_position g player), None, g)"
    by (subst minimax_ab.simps) simp
  moreover have "minimax_basic g 0 True player = Inr (Fin (evaluate_position g player), None, g)"
    by (subst minimax_basic.simps) simp
  ultimately show "get_best_move 0 use_alpha_beta g player = Inr (None, g)"
    by (simp add: get_best_move_def)
qed

theorem engines_return_valid_column_witness:
  "wf_game (init_game 6 7) \<and> get_game_state (init_game 6 7) = 0
   \<and> get_valid_moves (init_game 6 7) \<noteq> [] \<and> (0::nat) < 1
   \<and> (\<exists>c. get_best_move 1 True (init_game 6 7) 1 = Inr (Some c, init_game 6 7)
          \<and> c \<in> set (get_valid_moves (init_game 6 7)))
   \<and> (\<exists>c. get_move exploitation_only alternate 2 (init_game 6 7) 1 0 = Some (Inr (Some c))
          \<and> c \<in> set (get_valid_moves (init_game 6 7)))
   \<and> get_best_move 0 True (init_game 6 7) 1 = Inr (None, init_game 6 7)"
proof -
  have h1: "wf_game (init_game 6 7)" by code_simp
  have h2: "get_game_state (init_game 6 7) = 0" by code_simp
  have h3: "get_valid_moves (init_game 6 7) \<noteq> []" by code_simp
  have h4: "(0::nat) < 1" by simp
  from engines_return_valid_column [OF h1 h2 h3 h4] h1 h2 h3 h4 show ?thesis by blast
qed

text \<open>
  Claim C3, as the code has it. The claim says that among the children with the
  greatest visit count the one with the smallest column is returned. After two
  simulations on the empty board the root has the children of column 6 and of column 5,
  in this order, with one visit each, and \<open>get_move\<close> returns 6.
\<close>

theorem tie_goes_to_first_expanded_child:
  "root_children_stats (final_tree exploitation_only alternate 2 (init_game 6 7) 1 0)
     = [(Some 6, 1), (Some 5, 1)]
   \<and> get_move exploitation_only alternate 2 (init_game 6 7) 1 0 = Some (Inr (Some 6))"
  by code_simp

text \<open>
  Claim C3, amended. After \<open>get_move\<close> has completed a positive simulation budget on a
  well-shaped Ongoing game with a legal column, the returned column is the move of a
  child \<open>best\<close> of the root such that every child before it in the root's list of
  children has strictly fewer visits and every child after it has at most as many
  visits and a strictly smaller column. So the returned move is that of the child
  with the greatest visit count, and among several children with that count it is the
  one expanded first, which is the one with the largest column: \<open>expand_node\<close> pops the
  untried moves from the end of the ascending list.
\<close>

theorem most_visited_child_first_expanded:
  assumes "wf_game g" "get_game_state g = 0" "get_valid_moves g \<noteq> []" "0 < simulations"
  shows "\<exists>t k' best before after col.
      run_simulations formula rnd simulations [Node g None None (Some (3 - player))] k
        = Some (Inr (t, k'))
      \<and> get_move formula rnd simulations g player k = Some (Inr (Some col))
      \<and> children (t ! 0) = before @ best # after
      \<and> move (t ! best) = Some col
      \<and> (\<forall>c \<in> set before. visits (t ! c) < visits (t ! best))
      \<and> (\<forall>c \<in> set after. visits (t ! c) \<le> visits (t ! best))
      \<and> (\<forall>c \<in> set after. \<exists>col'. move (t ! c) = Some col' \<and> col' < col)"
proof -
  have ok: "tree_ok g [Node g None None (Some (3 - player))]"
    by (rule initial_tree_ok [OF assms(1)])
  from run_simulations_ok [OF ok, of formula rnd simulations k] assms(2,3,4) obtain t k' where
    r: "run_simulations formula rnd simulations [Node g None None (Some (3 - player))] k
          = Some (Inr (t, k'))" and ok': "tree_ok g t" and ne: "children (t ! 0) \<noteq> []" by blast
  from choose_move_best [OF ok' ne, of rnd k'] obtain best before after col where
    c: "choose_move rnd t k' = Some col" "move (t ! best) = Some col"
    "children (t ! 0) = before @ best # after"
    "\<forall>c \<in> set before. visits (t ! c) < visits (t ! best)"
    "\<forall>c \<in> set after. visits (t ! c) \<le> visits (t ! best)"
    "\<forall>c \<in> set after. \<exists>col'. move (t ! c) = Some col' \<and> col' < col" by blast
  from r c(1) have "get_move formula rnd simulations g player k = Some (Inr (Some col))"
    by (simp add: get_move_def)
  with r c show ?thesis by blast
qed

theorem most_visited_child_first_expanded_witness:
  "wf_game (init_game 6 7) \<and> get_game_state (init_game 6 7) = 0
   \<and> get_valid_moves (init_game 6 7) \<noteq> [] \<and> (0::nat) < 2
   \<and> (\<exists>t k' best before after col.
      run_simulations exploitation_only alternate 2 [Node (init_game 6 7) None None (Some (3 - 1))] 0
        = Some (Inr (t, k'))
      \<and> get_move exploitation_only alternate 2 (init_game 6 7) 1 0 = Some (Inr (Some col))
      \<and> children (t ! 0) = before @ best # after
      \<and> move (t ! best) = Some col
      \<and> (\<forall>c \<in> set before. visits (t ! c) < visits (t ! best))
      \<and> (\<forall>c \<in> set after. visits (t ! c) \<le> visits (t ! best))
      \<and> (\<forall>c \<in> set after. \<exists>col'. move (t ! c) = Some col' \<and> col' < col))"
proof -
  have h1: "wf_game (init_game 6 7)" by code_simp
  have h2: "get_game_state (init_game 6 7) = 0" by code_simp
  have h3: "get_valid_moves (init_game 6 7) \<noteq> []" by code_simp
  have h4: "(0::nat) < 2" by simp
  show ?thesis
    by (intro conjI) (rule h1 h2 h3 h4 most_visited_child_first_expanded [OF h1 h2 h3 h4])+
qed

text \<open>
  Claim C6. On a tree whose parent references are in order (\<open>parents_ok\<close>, which every
  tree of \<open>get_move\<close> satisfies), a call of \<open>backpropagate\<close> at a node returns, keeps the
  number of nodes, and adds exactly 1 to the visit counter of the node and of each of
  its ancestors, the root among them, and 0 to every other counter. Consequently, for
  every well-shaped game, \<open>n\<close> iterations of the loop of \<open>get_move\<close> on the fresh tree
  complete and leave the root with a visit counter of \<open>n\<close>.
\<close>

theorem backpropagate_reaches_root:
  "(parents_ok t \<and> i < length t \<longrightarrow>
      (\<exists>t'. backpropagate t i result = Some t' \<and> length t' = length t
            \<and> ancestor_or_self t 0 i
            \<and> (\<forall>j < length t.
                  visits (t' ! j) = visits (t ! j) + (if ancestor_or_self t j i then 1 else 0))))
   \<and> (wf_game g \<longrightarrow>
      (\<exists>t' k'. run_simulations formula rnd n [Node g None None (Some (3 - player))] k
                  = Some (Inr (t', k'))
              \<and> visits (t' ! 0) = n))"
proof (intro conjI impI)
  assume a: "parents_ok t \<and> i < length t"
  then have po: "parents_ok t" and i: "i < length t" by simp_all
  from backpropagate_visits [OF po i, of result] obtain t' where
    "backpropagate t i result = Some t'" "same_shape t t'"
    "\<forall>j < length t. visits (t' ! j) = visits (t ! j) + (if ancestor_or_self t j i then 1 else 0)"
    by blast
  moreover from this(2) have "length t' = length t" by (simp add: same_shape_def)
  moreover have "ancestor_or_self t 0 i" by (rule root_is_ancestor [OF po i])
  ultimately show "\<exists>t'. backpropagate t i result = Some t' \<and> length t' = length t
            \<and> ancestor_or_self t 0 i
            \<and> (\<forall>j < length t.
                  visits (t' ! j) = visits (t ! j) + (if ancestor_or_self t j i then 1 else 0))"
    by blast
next
  assume w: "wf_game g"
  have ok: "tree_ok g [Node g None None (Some (3 - player))]" by (rule initial_tree_ok [OF w])
  from run_simulations_ok [OF ok, of formula rnd n k] obtain t' k' where
    "run_simulations formula rnd n [Node g None None (Some (3 - player))] k = Some (Inr (t', k'))"
    "visits (t' ! 0) = visits ([Node g None None (Some (3 - player))] ! 0) + n" by blast
  then show "\<exists>t' k'. run_simulations formula rnd n [Node g None None (Some (3 - player))] k
                  = Some (Inr (t', k')) \<and> visits (t' ! 0) = n"
    by (simp add: Node_fields)
qed

theorem backpropagate_reaches_root_witness:
  "parents_ok chain_tree \<and> 2 < length chain_tree
   \<and> map visits chain_tree = [0, 0, 0]
   \<and> map_option (map visits) (backpropagate chain_tree 2 1) = Some [1, 1, 1]
   \<and> (\<exists>t'. backpropagate chain_tree 2 1 = Some t' \<and> visits (t' ! 0) = 1)
   \<and> wf_game (init_game 6 7)
   \<and> (\<exists>t' k'. run_simulations exploitation_only alternate 3
                  [Node (init_game 6 7) None None (Some (3 - 1))] 0 = Some (Inr (t', k'))
              \<and> visits (t' ! 0) = 3)"
proof -
  have h1: "parents_ok chain_tree" by code_simp
  have h2: "2 < length chain_tree" by code_simp
  have v0: "map visits chain_tree = [0, 0, 0]" by code_simp
  have e: "map_option (map visits) (backpropagate chain_tree 2 1) = Some [1, 1, 1]" by code_simp
  have w: "wf_game (init_game 6 7)" by code_simp
  note inst = backpropagate_reaches_root [of chain_tree 2 1 "init_game 6 7" exploitation_only
      alternate 3 1 0]
  from inst h1 h2 obtain t' where
    b: "backpropagate chain_tree 2 1 = Some t'" and a: "ancestor_or_self chain_tree 0 2"
    and v: "\<forall>j < length chain_tree.
        visits (t' ! j) = visits (chain_tree ! j) + (if ancestor_or_self chain_tree j 2 then 1 else 0)"
    by blast
  from v0 have "visits (chain_tree ! 0) = 0" using h2 by (metis length_map nth_map nth_Cons_0 less_trans zero_less_numeral)
  moreover from h2 have "0 < length chain_tree" by (rule less_trans [OF zero_less_numeral])
  with v have "visits (t' ! 0)
      = visits (chain_tree ! 0) + (if ancestor_or_self chain_tree 0 2 then 1 else 0)" by blast
  ultimately have "visits (t' ! 0) = 1" using a by simp
  with b have p1: "\<exists>t'. backpropagate chain_tree 2 1 = Some t' \<and> visits (t' ! 0) = 1" by blast
  from inst w have p2: "\<exists>t' k'. run_simulations exploitation_only alternate 3
                  [Node (init_game 6 7) None None (Some (3 - 1))] 0 = Some (Inr (t', k'))
              \<and> visits (t' ! 0) = 3" by blast
  from h1 h2 v0 e p1 w p2 show ?thesis by blast
qed

end
